theory Spec2Isabelle
  imports Complex_Main "HOL-Library.Char_ord" "HOL-Library.List_Lexorder" "HOL-Library.Multiset"
begin

section \<open>Data model of \<open>Create_dataset.ipynb\<close>\<close>

text \<open>
  The notebook is a sequence of cells over one pandas frame \<open>df_collection\<close> with the
  columns \<open>Buyer\<close> (a wallet address), \<open>Token ID\<close> (an integer) and \<open>Price\<close>.
  A frame is the list of its rows, in row order. The price column changes its type in
  the label cell, so the row is polymorphic in it. As read from the file a price cell
  holds the text of the file, or is missing (an empty or NA field, NaN in the frame):
  \<open>string option\<close> with \<open>None\<close> for the missing cell. After the label cell it is a
  number.
\<close>

record 'p row =
  Buyer :: string
  Token_ID :: int
  Price :: 'p

text \<open>Assigning a column of another type: \<open>df['Price'] = ...\<close> row by row.\<close>

definition set_Price :: "'p row \<Rightarrow> 'q \<Rightarrow> 'q row" where
  "set_Price r v = \<lparr>Buyer = Buyer r, Token_ID = Token_ID r, Price = v\<rparr>"

text \<open>The exceptions the modelled cells can raise.\<close>

datatype error = IndexError | ValueError | KeyError | AssertionError | AttributeError

text \<open>A column operation that raises stops at the first row that raises.\<close>

fun apply_rows :: "('a \<Rightarrow> error + 'b) \<Rightarrow> 'a list \<Rightarrow> error + 'b list" where
  "apply_rows f [] = Inr []"
| "apply_rows f (x # xs) =
     (case f x of
        Inl e \<Rightarrow> Inl e
      | Inr y \<Rightarrow> (case apply_rows f xs of Inl e \<Rightarrow> Inl e | Inr ys \<Rightarrow> Inr (y # ys)))"

section \<open>Threshold filter (cells 3 and 5)\<close>

text \<open>
  An item-feature table is read with \<open>index_col=0\<close>: a list of rows, each the index
  value (the raw token id) with the feature vector, in file order. pandas does not ask
  the index values to be unique. The user-feature frame gives its \<open>Buyer\<close> column.
  \<^verbatim>\<open>
  indices = set(image.index).intersection(set(text.index))
              .intersection(set(price.index)).intersection(set(transaction.index))
  df_collection = df_collection[df_collection['Token ID'].isin(indices)]
  df_collection = df_collection[df_collection['Buyer'].isin(df_feature['Buyer'])]
  \<close>
\<close>

type_synonym ('k, 'v) table = "('k \<times> 'v) list"

definition index :: "('k, 'v) table \<Rightarrow> 'k list" where
  "index t = map fst t"

definition feature_filter ::
  "(int, 'a) table \<Rightarrow> (int, 'b) table \<Rightarrow> (int, 'c) table \<Rightarrow> (int, 'd) table \<Rightarrow> string list
     \<Rightarrow> 'p row list \<Rightarrow> 'p row list" where
  "feature_filter image_t text_t price_t transaction_t feature_buyers df_collection =
     (let indices = set (index image_t) \<inter> set (index text_t)
                      \<inter> set (index price_t) \<inter> set (index transaction_t);
          df1 = filter (\<lambda>r. Token_ID r \<in> indices) df_collection
      in filter (\<lambda>r. Buyer r \<in> set feature_buyers) df1)"

text \<open>
  \<open>value_counts\<close> lists every distinct value of a column with the number of rows that
  hold it.
  \<^verbatim>\<open>
  user_count = df_collection['Buyer'].value_counts()
  user_count = user_count[user_count >= CUT]
  user_count = user_count.index.tolist()
  df_collection = df_collection[df_collection['Buyer'].isin(user_count)]
  \<close>
\<close>

definition value_counts :: "'a list \<Rightarrow> ('a \<times> nat) list" where
  "value_counts xs = map (\<lambda>x. (x, count_list xs x)) (remdups xs)"

definition user_cut :: "nat \<Rightarrow> 'p row list \<Rightarrow> 'p row list" where
  "user_cut CUT df_collection =
     (let user_count = value_counts (map Buyer df_collection);
          user_count = filter (\<lambda>(u, c). c \<ge> CUT) user_count;
          user_count = map fst user_count
      in filter (\<lambda>r. Buyer r \<in> set user_count) df_collection)"

definition threshold_filter ::
  "(int, 'a) table \<Rightarrow> (int, 'b) table \<Rightarrow> (int, 'c) table \<Rightarrow> (int, 'd) table \<Rightarrow> string list
     \<Rightarrow> nat \<Rightarrow> 'p row list \<Rightarrow> 'p row list" where
  "threshold_filter image_t text_t price_t transaction_t feature_buyers CUT df_collection =
     user_cut CUT
       (feature_filter image_t text_t price_t transaction_t feature_buyers df_collection)"

section \<open>Label generator (cell 6)\<close>

text \<open>
  \<^verbatim>\<open>
  df_collection = df_collection[df_collection['Price'].str.contains("\$")]
  df_collection['Price'] = df_collection['Price'].apply(
      lambda x: x.split(' ')[2][2:-1].replace(',', '').replace('.', ''))
  df_collection['Price'] = df_collection['Price'].astype(float)
  \<close>
  The \<open>.str\<close> accessor raises AttributeError on a column that is not of object dtype,
  which is what \<open>read_csv\<close> gives when no price of the file is a text; the dtype is
  the parameter \<open>object_dtype\<close>. On an object column \<open>str.contains\<close> gives NaN for
  a missing cell, and indexing a frame with a mask that holds NaN raises ValueError.
  Applied to a missing cell, a float, the lambda would raise AttributeError at
  \<open>x.split\<close>.

  \<open>x.split(' ')\<close> cuts at every single blank, so two blanks in a row give an empty token.
\<close>

fun py_split :: "char \<Rightarrow> string \<Rightarrow> string list" where
  "py_split c [] = [[]]"
| "py_split c (x # xs) =
     (let ts = py_split c xs in if x = c then [] # ts else (x # hd ts) # tl ts)"

definition py_replace_del :: "char \<Rightarrow> string \<Rightarrow> string" where
  "py_replace_del c s = filter (\<lambda>x. x \<noteq> c) s"

definition contains_dollar :: "string \<Rightarrow> bool" where
  "contains_dollar x = (CHR ''$'' \<in> set x)"

text \<open>
  The lambda: token 2 of the split (IndexError when there are fewer than three tokens),
  the slice \<open>[2:-1]\<close> (empty when the token has three characters or fewer), then both
  replacements.
\<close>

definition price_lambda :: "string \<Rightarrow> error + string" where
  "price_lambda x =
     (let toks = py_split CHR '' '' x
      in if length toks \<le> 2 then Inl IndexError
         else Inr (py_replace_del CHR ''.'' (py_replace_del CHR '','' (butlast (drop 2 (toks ! 2))))))"

text \<open>
  \<open>astype(float)\<close> on the cleaned strings. A dollar amount reaches it as a run of
  decimal digits, which converts to that whole number (exactly, below \<open>2^53\<close>, so the
  price is an \<open>int\<close> here); the empty string raises ValueError. The model raises
  ValueError for every string that is not a non-empty digit run: the other spellings
  Python's \<open>float\<close> reads (a sign, an exponent, \<open>inf\<close>, \<open>nan\<close>) do not occur in a
  dollar amount, and no statement below rests on what the model does with them.
\<close>

definition is_digit :: "char \<Rightarrow> bool" where
  "is_digit c = (c \<in> set ''0123456789'')"

definition digit_val :: "char \<Rightarrow> int" where
  "digit_val c = int (length (takeWhile (\<lambda>d. d \<noteq> c) ''0123456789''))"

definition astype_float :: "string \<Rightarrow> error + int" where
  "astype_float s =
     (if s \<noteq> [] \<and> list_all is_digit s
      then Inr (fold (\<lambda>c n. 10 * n + digit_val c) s 0)
      else Inl ValueError)"

definition str_contains_dollar :: "string option \<Rightarrow> bool option" where
  "str_contains_dollar cell = map_option contains_dollar cell"

definition boolean_mask :: "'a list \<Rightarrow> bool option list \<Rightarrow> error + 'a list" where
  "boolean_mask df msk =
     (if None \<in> set msk then Inl ValueError
      else Inr (map fst (filter (\<lambda>rm. snd rm = Some True) (zip df msk))))"

definition price_apply :: "string option \<Rightarrow> error + string" where
  "price_apply cell = (case cell of None \<Rightarrow> Inl AttributeError | Some x \<Rightarrow> price_lambda x)"

definition parse_prices :: "bool \<Rightarrow> string option row list \<Rightarrow> error + int row list" where
  "parse_prices object_dtype df_collection =
     (if \<not> object_dtype then Inl AttributeError
      else case boolean_mask df_collection
                  (map (\<lambda>r. str_contains_dollar (Price r)) df_collection) of
             Inl e \<Rightarrow> Inl e
           | Inr df1 \<Rightarrow>
               (case apply_rows (\<lambda>r. case price_apply (Price r) of
                                          Inl e \<Rightarrow> Inl e
                                        | Inr s \<Rightarrow> Inr (set_Price r s)) df1 of
                  Inl e \<Rightarrow> Inl e
                | Inr df2 \<Rightarrow>
                    apply_rows (\<lambda>r. case astype_float (Price r) of
                                       Inl e \<Rightarrow> Inl e
                                     | Inr v \<Rightarrow> Inr (set_Price r v)) df2))"

text \<open>
  \<^verbatim>\<open>
  df_collection['Price_diff'] = df_collection.groupby('Token ID')['Price'].diff(-1)
  df_collection['Price_diff'] = df_collection['Price_diff'].fillna(0)
  df_collection['Price_diff'] = df_collection['Price_diff'].apply(lambda x: -x)
  df_collection['Price_diff'] = df_collection['Price_diff'].apply(lambda x: 1 if x > 0 else 0)
  \<close>
  \<open>diff(-1)\<close> inside a group is the row's value minus the value of the next row of the
  same group, and NaN (here \<open>None\<close>) on the group's last row.
\<close>

fun next_in_group :: "int \<Rightarrow> int row list \<Rightarrow> int option" where
  "next_in_group t [] = None"
| "next_in_group t (r # rs) = (if Token_ID r = t then Some (Price r) else next_in_group t rs)"

fun groupby_diff :: "int row list \<Rightarrow> int option list" where
  "groupby_diff [] = []"
| "groupby_diff (r # rs) =
     (case next_in_group (Token_ID r) rs of
        None \<Rightarrow> None
      | Some p \<Rightarrow> Some (Price r - p)) # groupby_diff rs"

definition fillna0 :: "int option list \<Rightarrow> int list" where
  "fillna0 col = map (\<lambda>x. case x of None \<Rightarrow> 0 | Some v \<Rightarrow> v) col"

definition Price_diff :: "int row list \<Rightarrow> nat list" where
  "Price_diff df_collection =
     (let col = groupby_diff df_collection;
          col = fillna0 col;
          col = map (\<lambda>x. - x) col
      in map (\<lambda>x. if x > 0 then 1 else 0) col)"

text \<open>The cell's result \<open>data = (user, item, labels)\<close>.\<close>

definition label_generator ::
  "bool \<Rightarrow> string option row list \<Rightarrow> error + (string list \<times> int list \<times> nat list)" where
  "label_generator object_dtype df_collection =
     (case parse_prices object_dtype df_collection of
        Inl e \<Rightarrow> Inl e
      | Inr df \<Rightarrow> Inr (map Buyer df, map Token_ID df, Price_diff df))"

text \<open>
  The number an amount text such as \<open>1,234.56\<close> denotes, as a decimal fraction:
  thousands separators removed, the digits before and after the point over the power of
  ten the decimals ask for. The notebook does not compute it; it is what the parsed
  price is compared with below.
\<close>


definition true_decimal_price :: "string \<Rightarrow> rat" where
  "true_decimal_price amount =
     (let digits = py_replace_del CHR '','' amount;
          whole = takeWhile (\<lambda>c. c \<noteq> CHR ''.'') digits;
          decimals = drop 1 (dropWhile (\<lambda>c. c \<noteq> CHR ''.'') digits)
      in of_int (fold (\<lambda>c n. 10 * n + digit_val c) (whole @ decimals) 0) / 10 ^ length decimals)"

section \<open>Index mapper (cell 8)\<close>

text \<open>
  \<^verbatim>\<open>
  item_unique = np.unique(item)
  mapping_i = {}
  for i in range(len(item_unique)):
      mapping_i[item_unique[i]] = i
  user_unique = np.unique(user)
  mapping_u = {}
  for i in range(len(user_unique)):
      mapping_u[user_unique[i]] = i + len(set(item))
  \<close>
  \<open>np.unique\<close> returns the distinct values in ascending order; wallet addresses are
  compared as strings, character by character.
\<close>

definition np_unique :: "'a::linorder list \<Rightarrow> 'a list" where
  "np_unique xs = sort (remdups xs)"

definition mapping_i :: "int list \<Rightarrow> (int \<rightharpoonup> nat)" where
  "mapping_i item =
     (let item_unique = np_unique item
      in fold (\<lambda>i m. m(item_unique ! i \<mapsto> i)) [0..<length item_unique] Map.empty)"

definition mapping_u :: "string list \<Rightarrow> int list \<Rightarrow> (string \<rightharpoonup> nat)" where
  "mapping_u user item =
     (let user_unique = np_unique user
      in fold (\<lambda>i m. m(user_unique ! i \<mapsto> i + length (remdups item)))
           [0..<length user_unique] Map.empty)"

text \<open>Both loops have one shape: number the entries of a list from an offset.\<close>

definition enumerate_from :: "nat \<Rightarrow> 'a list \<Rightarrow> ('a \<rightharpoonup> nat)" where
  "enumerate_from off xs = fold (\<lambda>i m. m(xs ! i \<mapsto> i + off)) [0..<length xs] Map.empty"

text \<open>
  \<^verbatim>\<open>
  user_ = np.array([mapping_u[u] for u in user])
  item_ = np.array([mapping_i[i] for i in item])
  inter = np.array([user_, item_, labels]).T
  \<close>
  A row of \<open>inter\<close> is the triple (user, item, label); a missing key raises KeyError.
\<close>

type_synonym inter_row = "nat \<times> nat \<times> nat"

definition lookup :: "('k \<rightharpoonup> 'v) \<Rightarrow> 'k \<Rightarrow> error + 'v" where
  "lookup m k = (case m k of None \<Rightarrow> Inl KeyError | Some v \<Rightarrow> Inr v)"

definition create_inter :: "string list \<Rightarrow> int list \<Rightarrow> nat list \<Rightarrow> error + inter_row list" where
  "create_inter user item labels =
     (case apply_rows (lookup (mapping_u user item)) user of
        Inl e \<Rightarrow> Inl e
      | Inr user_ \<Rightarrow>
          (case apply_rows (lookup (mapping_i item)) item of
             Inl e \<Rightarrow> Inl e
           | Inr item_ \<Rightarrow> Inr (zip user_ (zip item_ labels))))"

section \<open>Split engine (cell 12)\<close>

text \<open>
  \<^verbatim>\<open>
  random_idx_list = []
  for u in np.unique(inter[:,0]):
      num_sample = int(len(np.where(inter[:,0]==u)[0])*0.4)
      random_idx = np.random.choice(np.where(inter[:,0]==u)[0], num_sample, replace=False)
      valid_and_test.extend(inter[random_idx])
      random_idx_list.extend(random_idx)
  \<close>
  \<open>np.random.choice\<close> is numpy's: it reads and advances the generator of the process,
  which the notebook never seeds. The sampler is a parameter \<open>choice\<close> of the model and
  the generator's state \<open>g\<close> is passed through the loop; \<open>sampler\<close> is what numpy
  documents of a draw without replacement.

  \<open>int(n * 0.4)\<close> multiplies in double precision and truncates. The double nearest to
  0.4 is a little above it, so the product never falls below \<open>4n/10\<close>, and it stays
  well under the next whole number for every row count a frame can hold: the result is
  \<open>(n * 4) div 10\<close>.
\<close>

definition np_where :: "inter_row list \<Rightarrow> nat \<Rightarrow> nat list" where
  "np_where inter' u = filter (\<lambda>i. fst (inter' ! i) = u) [0..<length inter']"

definition num_sample :: "nat \<Rightarrow> nat" where
  "num_sample n = (n * 4) div 10"

definition sampler :: "('g \<Rightarrow> nat list \<Rightarrow> nat \<Rightarrow> nat list \<times> 'g) \<Rightarrow> bool" where
  "sampler choice =
     (\<forall>g a k. k \<le> length a \<and> distinct a \<longrightarrow>
        length (fst (choice g a k)) = k \<and> distinct (fst (choice g a k))
          \<and> set (fst (choice g a k)) \<subseteq> set a)"

fun holdout_loop ::
  "('g \<Rightarrow> nat list \<Rightarrow> nat \<Rightarrow> nat list \<times> 'g) \<Rightarrow> inter_row list \<Rightarrow> nat list \<Rightarrow> 'g \<Rightarrow> nat list
     \<Rightarrow> nat list \<times> 'g" where
  "holdout_loop choice inter' [] g random_idx_list = (random_idx_list, g)"
| "holdout_loop choice inter' (u # us) g random_idx_list =
     (let rows = np_where inter' u;
          (random_idx, g') = choice g rows (num_sample (length rows))
      in holdout_loop choice inter' us g' (random_idx_list @ random_idx))"

definition holdout ::
  "('g \<Rightarrow> nat list \<Rightarrow> nat \<Rightarrow> nat list \<times> 'g) \<Rightarrow> 'g \<Rightarrow> inter_row list \<Rightarrow> nat list" where
  "holdout choice g inter' = fst (holdout_loop choice inter' (np_unique (map fst inter')) g [])"

text \<open>
  \<^verbatim>\<open>
  train = np.delete(inter, random_idx_list, axis=0)
  valid_idx_list, test_idx_list = train_test_split(random_idx_list, test_size=0.5, random_state=42)
  valid = inter[valid_idx_list]
  test = inter[test_idx_list]
  \<close>
  \<open>train_test_split\<close> is scikit-learn's: with \<open>n\<close> samples it takes
  \<open>n_test = ceil(0.5 * n)\<close> and \<open>n_train = n - n_test\<close>, raises ValueError when
  \<open>n_train = 0\<close>, shuffles \<open>range(n)\<close> with the generator seeded by \<open>random_state\<close>,
  and returns the samples at the first \<open>n_test\<close> shuffled positions as the second
  result and those at the next \<open>n_train\<close> as the first. The shuffle for seed 42 is the
  parameter \<open>permutation\<close>; \<open>shuffle\<close> says it permutes.
\<close>

text \<open>
  \<open>np.delete\<close> and the indexing \<open>inter[idx]\<close> raise IndexError on a position outside
  the array; a sampler draws from the positions it is given, so the positions they get
  here are positions of \<open>inter\<close> (\<open>holdout_props\<close> below) and that branch is left
  out.
\<close>

definition np_delete :: "'a list \<Rightarrow> nat list \<Rightarrow> 'a list" where
  "np_delete arr obj = map (\<lambda>i. arr ! i) (filter (\<lambda>i. i \<notin> set obj) [0..<length arr])"

definition take_rows :: "'a list \<Rightarrow> nat list \<Rightarrow> 'a list" where
  "take_rows arr idx = map (\<lambda>i. arr ! i) idx"

definition shuffle :: "(nat \<Rightarrow> nat list) \<Rightarrow> bool" where
  "shuffle permutation = (\<forall>n. mset (permutation n) = mset [0..<n])"

definition train_test_split :: "(nat \<Rightarrow> nat list) \<Rightarrow> 'a list \<Rightarrow> error + ('a list \<times> 'a list)" where
  "train_test_split permutation arr =
     (let n_samples = length arr;
          n_test = (n_samples + 1) div 2;
          n_train = n_samples - n_test
      in if n_train = 0 then Inl ValueError
         else let p = permutation n_samples;
                  ind_test = take n_test p;
                  ind_train = take n_train (drop n_test p)
              in Inr (take_rows arr ind_train, take_rows arr ind_test))"

record split =
  random_idx_list :: "nat list"
  train :: "inter_row list"
  valid_idx_list :: "nat list"
  test_idx_list :: "nat list"
  valid :: "inter_row list"
  test :: "inter_row list"

definition data_split ::
  "('g \<Rightarrow> nat list \<Rightarrow> nat \<Rightarrow> nat list \<times> 'g) \<Rightarrow> (nat \<Rightarrow> nat list) \<Rightarrow> 'g \<Rightarrow> inter_row list
     \<Rightarrow> error + split" where
  "data_split choice permutation g inter' =
     (let idx = holdout choice g inter';
          tr = np_delete inter' idx
      in case train_test_split permutation idx of
           Inl e \<Rightarrow> Inl e
         | Inr (v, t) \<Rightarrow>
             Inr \<lparr>random_idx_list = idx, train = tr, valid_idx_list = v, test_idx_list = t,
                  valid = take_rows inter' v, test = take_rows inter' t\<rparr>)"

text \<open>
  Two stand-ins for the library parts, used to run the split on concrete frames: a
  generator whose state is a counter, with a draw that takes the first \<open>k\<close> entries
  of the list rotated by the counter and advances it, and a shuffle that reverses.
\<close>

definition rotate_choice :: "nat \<Rightarrow> nat list \<Rightarrow> nat \<Rightarrow> nat list \<times> nat" where
  "rotate_choice g a k = (take k (rotate g a), Suc g)"

definition rev_permutation :: "nat \<Rightarrow> nat list" where
  "rev_permutation n = rev [0..<n]"

section \<open>Adjacency builder (cells 14, 17 and 22)\<close>

text \<open>
  \<^verbatim>\<open>
  adj_dict = {}
  for i in range(len(inter)):
      if inter[i][0] in adj_dict:
          adj_dict[inter[i][0]].append(inter[i][1])
      else:
          adj_dict[inter[i][0]] = [inter[i][1]]
  \<close>
  \<open>valid_dict\<close> and \<open>test_dict\<close> are built by the same loop over \<open>valid\<close> and
  \<open>test\<close>.
\<close>

definition dict_append :: "(nat \<rightharpoonup> nat list) \<Rightarrow> inter_row \<Rightarrow> (nat \<rightharpoonup> nat list)" where
  "dict_append d r =
     (case d (fst r) of
        Some items \<Rightarrow> d(fst r \<mapsto> items @ [fst (snd r)])
      | None \<Rightarrow> d(fst r \<mapsto> [fst (snd r)]))"

definition dict_of_rows :: "inter_row list \<Rightarrow> (nat \<rightharpoonup> nat list)" where
  "dict_of_rows arr = fold (\<lambda>i d. dict_append d (arr ! i)) [0..<length arr] Map.empty"

definition adj_dict :: "inter_row list \<Rightarrow> (nat \<rightharpoonup> nat list)" where
  "adj_dict inter' = dict_of_rows inter'"

definition valid_dict :: "split \<Rightarrow> (nat \<rightharpoonup> nat list)" where
  "valid_dict s = dict_of_rows (valid s)"

definition test_dict :: "split \<Rightarrow> (nat \<rightharpoonup> nat list)" where
  "test_dict s = dict_of_rows (test s)"

section \<open>Feature aligner (cells 24 and 25)\<close>

text \<open>
  \<^verbatim>\<open>
  item_unique = np.unique(item)
  image = image.loc[image.index.isin(item_unique)]
  image.index = image.index.map(mapping_i)
  ...
  assert np.array_equal(np.sort(image.index.values), np.sort(text.index.values))
  assert np.array_equal(np.sort(image.index.values), np.sort(price.index.values))
  assert np.array_equal(np.sort(image.index.values), np.sort(transaction.index.values))
  \<close>
  \<open>Index.map\<close> with a dict gives NaN (here \<open>None\<close>) for a key the dict lacks.
  \<open>np.sort\<close> puts NaN last, and \<open>np.array_equal\<close> is false as soon as a NaN is
  compared.
\<close>

definition isin_rows :: "('k, 'v) table \<Rightarrow> 'k list \<Rightarrow> ('k, 'v) table" where
  "isin_rows t keys = filter (\<lambda>kv. fst kv \<in> set keys) t"

definition index_map :: "('k \<rightharpoonup> nat) \<Rightarrow> ('k, 'v) table \<Rightarrow> (nat option, 'v) table" where
  "index_map m t = map (\<lambda>kv. (m (fst kv), snd kv)) t"

definition np_sort :: "nat option list \<Rightarrow> nat option list" where
  "np_sort ks =
     map Some (sort (map the (filter (\<lambda>k. k \<noteq> None) ks))) @ filter (\<lambda>k. k = None) ks"

definition array_equal :: "nat option list \<Rightarrow> nat option list \<Rightarrow> bool" where
  "array_equal a b = (length a = length b \<and> list_all2 (\<lambda>x y. x \<noteq> None \<and> x = y) a b)"

definition align :: "int list \<Rightarrow> (int, 'v) table \<Rightarrow> (nat option, 'v) table" where
  "align item t = index_map (mapping_i item) (isin_rows t (np_unique item))"

definition feature_aligner ::
  "(int, 'a) table \<Rightarrow> (int, 'b) table \<Rightarrow> (int, 'c) table \<Rightarrow> (int, 'd) table \<Rightarrow> int list
     \<Rightarrow> error + ((nat option, 'a) table \<times> (nat option, 'b) table
                  \<times> (nat option, 'c) table \<times> (nat option, 'd) table)" where
  "feature_aligner image_t text_t price_t transaction_t item =
     (let image_t = align item image_t;
          text_t = align item text_t;
          price_t = align item price_t;
          transaction_t = align item transaction_t
      in if \<not> array_equal (np_sort (index image_t)) (np_sort (index text_t))
         then Inl AssertionError
         else if \<not> array_equal (np_sort (index image_t)) (np_sort (index price_t))
         then Inl AssertionError
         else if \<not> array_equal (np_sort (index image_t)) (np_sort (index transaction_t))
         then Inl AssertionError
         else Inr (image_t, text_t, price_t, transaction_t))"

section \<open>Properties of the threshold filter\<close>

lemma count_list_map_Buyer:
  "count_list (map Buyer d) u = length (filter (\<lambda>r. Buyer r = u) d)"
  by (induction d) auto

lemma user_cut_filter:
  "user_cut CUT d = filter (\<lambda>r. CUT \<le> length (filter (\<lambda>r'. Buyer r' = Buyer r) d)) d"
proof -
  have "(Buyer r \<in> set (map fst (filter (\<lambda>(u, c). CUT \<le> c) (value_counts (map Buyer d)))))
          = (CUT \<le> length (filter (\<lambda>r'. Buyer r' = Buyer r) d))" if "r \<in> set d" for r
    using that by (force simp: value_counts_def count_list_map_Buyer)
  then show ?thesis
    unfolding user_cut_def Let_def by (intro filter_cong) auto
qed

lemma feature_filter_filter:
  "feature_filter im tx pr tr fb df =
     filter (\<lambda>r. Token_ID r \<in> set (index im) \<and> Token_ID r \<in> set (index tx)
                 \<and> Token_ID r \<in> set (index pr) \<and> Token_ID r \<in> set (index tr)
                 \<and> Buyer r \<in> set fb) df"
  unfolding feature_filter_def Let_def filter_filter by (intro filter_cong) auto

lemma threshold_filter_filter:
  "threshold_filter im tx pr tr fb CUT df =
     filter (\<lambda>r. Token_ID r \<in> set (index im) \<and> Token_ID r \<in> set (index tx)
                 \<and> Token_ID r \<in> set (index pr) \<and> Token_ID r \<in> set (index tr)
                 \<and> Buyer r \<in> set fb
                 \<and> CUT \<le> length (filter (\<lambda>r'. Buyer r' = Buyer r)
                                    (feature_filter im tx pr tr fb df))) df"
proof -
  let ?d = "feature_filter im tx pr tr fb df"
  have "threshold_filter im tx pr tr fb CUT df
          = filter (\<lambda>r. CUT \<le> length (filter (\<lambda>r'. Buyer r' = Buyer r) ?d)) ?d"
    by (simp only: threshold_filter_def user_cut_filter)
  also have "\<dots> = filter (\<lambda>r. CUT \<le> length (filter (\<lambda>r'. Buyer r' = Buyer r) ?d))
                     (filter (\<lambda>r. Token_ID r \<in> set (index im) \<and> Token_ID r \<in> set (index tx)
                 \<and> Token_ID r \<in> set (index pr) \<and> Token_ID r \<in> set (index tr)
                 \<and> Buyer r \<in> set fb) df)"
    by (rule arg_cong [OF feature_filter_filter])
  finally show ?thesis
    unfolding filter_filter by (simp add: conj_commute conj_left_commute cong: conj_cong)
qed

lemma threshold_filter_drops_eligible_count:
  "threshold_filter [(1, ()), (2, ()), (3, ()), (4, ()), (5, ())]
      [(1, ()), (2, ()), (3, ()), (4, ()), (5, ())] [(1, ()), (2, ()), (3, ()), (4, ())]
      [(1, ()), (2, ()), (3, ()), (4, ()), (5, ())] [''A''] 5
      [\<lparr>Buyer = ''A'', Token_ID = 1, Price = ()\<rparr>, \<lparr>Buyer = ''A'', Token_ID = 2, Price = ()\<rparr>,
       \<lparr>Buyer = ''A'', Token_ID = 3, Price = ()\<rparr>, \<lparr>Buyer = ''A'', Token_ID = 4, Price = ()\<rparr>,
       \<lparr>Buyer = ''A'', Token_ID = 5, Price = ()\<rparr>] = []"
  by code_simp

text \<open>
  C8. The rows the threshold filter keeps are exactly the rows of the input whose token
  is in the index of all four item-feature tables, whose buyer is in the user-feature
  frame, and whose buyer has at least \<open>CUT\<close> rows among the rows that passed the two
  feature filters: the count is taken after the feature filtering. So a buyer whose raw
  count meets \<open>CUT\<close> can still be dropped: buyer A below has five raw rows, token 5 is
  missing from the price table, four rows are eligible, and with \<open>CUT = 5\<close> nothing is
  kept.
\<close>

theorem threshold_filter_counts_after_features:
  "threshold_filter im tx pr tr fb CUT df =
     filter (\<lambda>r. Token_ID r \<in> set (index im) \<and> Token_ID r \<in> set (index tx)
                 \<and> Token_ID r \<in> set (index pr) \<and> Token_ID r \<in> set (index tr)
                 \<and> Buyer r \<in> set fb
                 \<and> CUT \<le> length (filter (\<lambda>r'. Buyer r' = Buyer r)
                                    (feature_filter im tx pr tr fb df))) df
   \<and> threshold_filter [(1, ()), (2, ()), (3, ()), (4, ()), (5, ())]
        [(1, ()), (2, ()), (3, ()), (4, ()), (5, ())] [(1, ()), (2, ()), (3, ()), (4, ())]
        [(1, ()), (2, ()), (3, ()), (4, ()), (5, ())] [''A''] 5
        [\<lparr>Buyer = ''A'', Token_ID = 1, Price = ()\<rparr>, \<lparr>Buyer = ''A'', Token_ID = 2, Price = ()\<rparr>,
         \<lparr>Buyer = ''A'', Token_ID = 3, Price = ()\<rparr>, \<lparr>Buyer = ''A'', Token_ID = 4, Price = ()\<rparr>,
         \<lparr>Buyer = ''A'', Token_ID = 5, Price = ()\<rparr>] = []"
  using threshold_filter_filter threshold_filter_drops_eligible_count by (rule conjI)

section \<open>Properties of the label generator\<close>

lemma next_in_group_None:
  "(\<forall>r \<in> set rs. Token_ID r \<noteq> t) \<Longrightarrow> next_in_group t rs = None"
  by (induction rs) auto

lemma next_in_group_Some:
  "j < length rs \<Longrightarrow> Token_ID (rs ! j) = t \<Longrightarrow> (\<forall>k<j. Token_ID (rs ! k) \<noteq> t)
     \<Longrightarrow> next_in_group t rs = Some (Price (rs ! j))"
proof (induction rs arbitrary: j)
  case Nil
  then show ?case by simp
next
  case (Cons r rs)
  show ?case
  proof (cases j)
    case 0
    with Cons.prems show ?thesis by simp
  next
    case (Suc j')
    from Cons.prems Suc have "Token_ID r \<noteq> t" by auto
    moreover have "next_in_group t rs = Some (Price (rs ! j'))"
      using Cons.prems Suc by (intro Cons.IH) auto
    ultimately show ?thesis using Suc by simp
  qed
qed

lemma groupby_diff_nth:
  "i < length df \<Longrightarrow>
     groupby_diff df ! i =
       (case next_in_group (Token_ID (df ! i)) (drop (Suc i) df) of
          None \<Rightarrow> None | Some p \<Rightarrow> Some (Price (df ! i) - p))"
proof (induction df arbitrary: i)
  case Nil
  then show ?case by simp
next
  case (Cons r rs)
  then show ?case by (cases i) (simp_all split: option.split)
qed

lemma length_groupby_diff: "length (groupby_diff df) = length df"
  by (induction df) simp_all

lemma length_Price_diff: "length (Price_diff df) = length df"
  by (simp add: Price_diff_def fillna0_def length_groupby_diff)

lemma Price_diff_nth:
  "i < length df \<Longrightarrow>
     Price_diff df ! i =
       (case next_in_group (Token_ID (df ! i)) (drop (Suc i) df) of
          None \<Rightarrow> 0 | Some p \<Rightarrow> if Price (df ! i) < p then 1 else 0)"
  by (simp add: Price_diff_def fillna0_def length_groupby_diff groupby_diff_nth split: option.split)

text \<open>
  C1, as the claim states it, fails. On the two rows of one item with prices 10 then 8
  the difference \<open>diff(-1)\<close> of the first row is \<open>10 - 8 = 2\<close>, its negation is
  \<open>-2\<close>, which is not above zero: the first row's label is 0, not 1.
\<close>

theorem Price_diff_drop_counterexample:
  "Price_diff [\<lparr>Buyer = ''A'', Token_ID = 1, Price = 10\<rparr>,
               \<lparr>Buyer = ''A'', Token_ID = 1, Price = 8\<rparr>] = [0, 0]"
  by (simp add: Price_diff_def fillna0_def)

text \<open>
  C1, amended. For a row \<open>i\<close> whose next row of the same item is row \<open>j\<close>, the label is
  1 exactly when the price of row \<open>j\<close> is strictly greater than the price of row \<open>i\<close>;
  for a row with no later row of its item the label is 0.
\<close>

theorem Price_diff_label:
  assumes "i < length df"
  shows "(i < j \<and> j < length df \<and> Token_ID (df ! j) = Token_ID (df ! i)
            \<and> (\<forall>k. i < k \<and> k < j \<longrightarrow> Token_ID (df ! k) \<noteq> Token_ID (df ! i))
          \<longrightarrow> Price_diff df ! i = (if Price (df ! i) < Price (df ! j) then 1 else 0))
       \<and> ((\<forall>j. i < j \<and> j < length df \<longrightarrow> Token_ID (df ! j) \<noteq> Token_ID (df ! i))
          \<longrightarrow> Price_diff df ! i = 0)"
proof (intro conjI impI)
  assume h: "i < j \<and> j < length df \<and> Token_ID (df ! j) = Token_ID (df ! i)
            \<and> (\<forall>k. i < k \<and> k < j \<longrightarrow> Token_ID (df ! k) \<noteq> Token_ID (df ! i))"
  define j' where "j' = j - Suc i"
  have j: "j = Suc i + j'" using h by (simp add: j'_def)
  have "next_in_group (Token_ID (df ! i)) (drop (Suc i) df) = Some (Price (drop (Suc i) df ! j'))"
  proof (rule next_in_group_Some)
    show "j' < length (drop (Suc i) df)" using h j by (simp, arith)
    show "Token_ID (drop (Suc i) df ! j') = Token_ID (df ! i)" using h j by simp
    show "\<forall>k<j'. Token_ID (drop (Suc i) df ! k) \<noteq> Token_ID (df ! i)"
      using h j by simp
  qed
  then show "Price_diff df ! i = (if Price (df ! i) < Price (df ! j) then 1 else 0)"
    using assms h j by (simp add: Price_diff_nth)
next
  assume h: "\<forall>j. i < j \<and> j < length df \<longrightarrow> Token_ID (df ! j) \<noteq> Token_ID (df ! i)"
  have "next_in_group (Token_ID (df ! i)) (drop (Suc i) df) = None"
  proof (rule next_in_group_None, rule ballI)
    fix r assume "r \<in> set (drop (Suc i) df)"
    then obtain k where "k < length (drop (Suc i) df)" "r = drop (Suc i) df ! k"
      by (auto simp: in_set_conv_nth)
    then show "Token_ID r \<noteq> Token_ID (df ! i)" using h by simp
  qed
  then show "Price_diff df ! i = 0" using assms by (simp add: Price_diff_nth)
qed

theorem Price_diff_label_witness:
  "Price_diff [\<lparr>Buyer = ''A'', Token_ID = 1, Price = 8\<rparr>, \<lparr>Buyer = ''B'', Token_ID = 2, Price = 5\<rparr>,
               \<lparr>Buyer = ''A'', Token_ID = 1, Price = 10\<rparr>] ! 0 = 1
   \<and> Price_diff [\<lparr>Buyer = ''A'', Token_ID = 1, Price = 8\<rparr>, \<lparr>Buyer = ''B'', Token_ID = 2, Price = 5\<rparr>,
               \<lparr>Buyer = ''A'', Token_ID = 1, Price = 10\<rparr>] ! 2 = 0"
proof -
  let ?df = "[\<lparr>Buyer = ''A'', Token_ID = 1, Price = 8::int\<rparr>, \<lparr>Buyer = ''B'', Token_ID = 2, Price = 5\<rparr>,
               \<lparr>Buyer = ''A'', Token_ID = 1, Price = 10\<rparr>]"
  have k: "\<forall>k. 0 < k \<and> k < 2 \<longrightarrow> Token_ID (?df ! k) \<noteq> Token_ID (?df ! 0)"
    by (auto simp: less_Suc_eq numeral_2_eq_2)
  have "Price_diff ?df ! 0 = 1"
    using Price_diff_label [of 0 ?df 2] k by simp
  moreover have "Price_diff ?df ! 2 = 0"
    using Price_diff_label [of 2 ?df 0] by simp
  ultimately show ?thesis by (rule conjI)
qed

subsection \<open>Parsing a price text\<close>

lemma py_split_no_sep: "c \<notin> set a \<Longrightarrow> py_split c a = [a]"
  by (induction a) (auto simp: Let_def)

lemma py_split_sep: "c \<notin> set a \<Longrightarrow> py_split c (a @ c # rest) = a # py_split c rest"
  by (induction a) (auto simp: Let_def)

lemma price_lambda_shape:
  assumes "CHR '' '' \<notin> set a" "CHR '' '' \<notin> set b" "CHR '' '' \<notin> set amount"
  shows "price_lambda (a @ '' '' @ b @ '' ($'' @ amount @ '')'')
           = Inr (filter (\<lambda>c. c \<noteq> CHR '','' \<and> c \<noteq> CHR ''.'') amount)"
proof -
  have "py_split CHR '' '' (a @ '' '' @ b @ '' ($'' @ amount @ '')'')
          = [a, b, ''($'' @ amount @ '')'']"
    using assms by (simp add: py_split_sep py_split_no_sep)
  then show ?thesis
    by (simp add: price_lambda_def py_replace_del_def butlast_append conj_commute)
qed


subsection \<open>Rows without the currency marker\<close>

lemma boolean_mask_nan:
  assumes "\<exists>r\<in>set df. f r = None"
  shows "boolean_mask df (map f df) = Inl ValueError"
proof -
  from assms obtain r where "r \<in> set df" "f r = None" by blast
  then have "None \<in> set (map f df)" by (metis image_eqI set_map)
  then show ?thesis by (simp only: boolean_mask_def if_True)
qed

lemma boolean_mask_ok:
  assumes "\<forall>r\<in>set df. f r \<noteq> None"
  shows "boolean_mask df (map f df) = Inr (filter (\<lambda>r. f r = Some True) df)"
proof -
  have "map fst (filter (\<lambda>rm. snd rm = Some True) (zip df (map f df)))
          = filter (\<lambda>r. f r = Some True) df"
    by (induction df) simp_all
  moreover have "None \<notin> set (map f df)"
  proof
    assume "None \<in> set (map f df)"
    then obtain r where "r \<in> set df" "f r = None" by (metis imageE set_map)
    with assms show False by blast
  qed
  ultimately show ?thesis by (simp only: boolean_mask_def if_False)
qed

lemma contains_not_None: "Price r \<noteq> None \<Longrightarrow> str_contains_dollar (Price r) \<noteq> None"
  by (cases "Price r") (simp_all add: str_contains_dollar_def)

lemma apply_rows_set_Price:
  "apply_rows (\<lambda>r. case g (Price r) of Inl e \<Rightarrow> Inl e | Inr v \<Rightarrow> Inr (set_Price r v)) xs = Inr ys
     \<Longrightarrow> map Buyer ys = map Buyer xs \<and> map Token_ID ys = map Token_ID xs"
  by (induction xs arbitrary: ys) (auto simp: set_Price_def split: sum.splits)

lemma parse_prices_missing:
  assumes "\<exists>r\<in>set df. Price r = None"
  shows "parse_prices True df = Inl ValueError"
proof -
  from assms have "\<exists>r\<in>set df. str_contains_dollar (Price r) = None"
    by (auto simp: str_contains_dollar_def)
  from boolean_mask_nan [OF this] show ?thesis by (simp add: parse_prices_def)
qed

lemma parse_prices_text:
  assumes "\<forall>r\<in>set df. Price r \<noteq> None"
  shows "parse_prices True df =
     (case apply_rows (\<lambda>r. case price_apply (Price r) of
                                Inl e \<Rightarrow> Inl e | Inr s \<Rightarrow> Inr (set_Price r s))
             (filter (\<lambda>r. str_contains_dollar (Price r) = Some True) df) of
        Inl e \<Rightarrow> Inl e
      | Inr df2 \<Rightarrow>
          apply_rows (\<lambda>r. case astype_float (Price r) of
                             Inl e \<Rightarrow> Inl e | Inr v \<Rightarrow> Inr (set_Price r v)) df2)"
proof -
  from assms have "\<forall>r\<in>set df. str_contains_dollar (Price r) \<noteq> None"
    using contains_not_None by blast
  from boolean_mask_ok [OF this] show ?thesis by (simp add: parse_prices_def)
qed

lemma parse_prices_columns:
  assumes "parse_prices True df = Inr df'"
  shows "map Buyer df' = map Buyer (filter (\<lambda>r. str_contains_dollar (Price r) = Some True) df)
       \<and> map Token_ID df'
           = map Token_ID (filter (\<lambda>r. str_contains_dollar (Price r) = Some True) df)"
proof (cases "\<exists>r\<in>set df. Price r = None")
  case True
  from parse_prices_missing [OF this] assms show ?thesis by simp
next
  case False
  then have "\<forall>r\<in>set df. Price r \<noteq> None" by simp
  from parse_prices_text [OF this] assms obtain df2 where
    a: "apply_rows (\<lambda>r. case price_apply (Price r) of
                         Inl e \<Rightarrow> Inl e | Inr s \<Rightarrow> Inr (set_Price r s))
          (filter (\<lambda>r. str_contains_dollar (Price r) = Some True) df) = Inr df2"
    and b: "apply_rows (\<lambda>r. case astype_float (Price r) of
                         Inl e \<Rightarrow> Inl e | Inr v \<Rightarrow> Inr (set_Price r v)) df2 = Inr df'"
    by (auto split: sum.splits)
  from apply_rows_set_Price [where g = price_apply, OF a]
    apply_rows_set_Price [where g = astype_float, OF b]
  show ?thesis by simp
qed








subsection \<open>The decimal point in the price\<close>

lemma parse_prices_30_250:
  "parse_prices True [\<lparr>Buyer = ''A'', Token_ID = 1, Price = Some ''0.02 ETH ($30)''\<rparr>,
                 \<lparr>Buyer = ''B'', Token_ID = 1, Price = Some ''0.001 ETH ($2.50)''\<rparr>]
     = Inr [\<lparr>Buyer = ''A'', Token_ID = 1, Price = 30\<rparr>, \<lparr>Buyer = ''B'', Token_ID = 1, Price = 250\<rparr>]"
  by code_simp

lemma true_price_30_250:
  "true_decimal_price ''2.50'' < true_decimal_price ''30''"
  by (simp add: true_decimal_price_def py_replace_del_def digit_val_def)

lemma label_30_250:
  "label_generator True [\<lparr>Buyer = ''A'', Token_ID = 1, Price = Some ''0.02 ETH ($30)''\<rparr>,
                    \<lparr>Buyer = ''B'', Token_ID = 1, Price = Some ''0.001 ETH ($2.50)''\<rparr>]
     = Inr ([''A'', ''B''], [1, 1], [1, 0])"
  by (simp add: label_generator_def parse_prices_30_250 Price_diff_def fillna0_def)

text \<open>
  C5, as the claim states it, fails at its own example: \<open>$30.00\<close> followed by
  \<open>$2.50\<close> parse to 3000 and 250, which do not increase, and the first row's label
  is 0 as for any falling price.
\<close>

theorem parse_prices_example_counterexample:
  "parse_prices True [\<lparr>Buyer = ''A'', Token_ID = 1, Price = Some ''0.02 ETH ($30.00)''\<rparr>,
                 \<lparr>Buyer = ''B'', Token_ID = 1, Price = Some ''0.001 ETH ($2.50)''\<rparr>]
     = Inr [\<lparr>Buyer = ''A'', Token_ID = 1, Price = 3000\<rparr>, \<lparr>Buyer = ''B'', Token_ID = 1, Price = 250\<rparr>]
   \<and> \<not> (3000 :: int) < 250
   \<and> label_generator True [\<lparr>Buyer = ''A'', Token_ID = 1, Price = Some ''0.02 ETH ($30.00)''\<rparr>,
                       \<lparr>Buyer = ''B'', Token_ID = 1, Price = Some ''0.001 ETH ($2.50)''\<rparr>]
        = Inr ([''A'', ''B''], [1, 1], [0, 0])"
  by code_simp

text \<open>
  C5, amended. For a price text of the shape \<open>a b ($amount)\<close> the lambda returns the
  amount with every comma and point deleted, so amounts written with different numbers
  of decimals are compared on different scales: \<open>$30\<close> followed by \<open>$2.50\<close> for
  the same item parse to 30 and 250, the true price falls, and the first row gets the
  label 1 of a rising price.
\<close>

theorem price_lambda_deletes_point:
  assumes "CHR '' '' \<notin> set a" "CHR '' '' \<notin> set b" "CHR '' '' \<notin> set amount"
  shows "price_lambda (a @ '' '' @ b @ '' ($'' @ amount @ '')'')
           = Inr (filter (\<lambda>c. c \<noteq> CHR '','' \<and> c \<noteq> CHR ''.'') amount)
       \<and> parse_prices True [\<lparr>Buyer = ''A'', Token_ID = 1, Price = Some ''0.02 ETH ($30)''\<rparr>,
                        \<lparr>Buyer = ''B'', Token_ID = 1, Price = Some ''0.001 ETH ($2.50)''\<rparr>]
           = Inr [\<lparr>Buyer = ''A'', Token_ID = 1, Price = 30\<rparr>,
                  \<lparr>Buyer = ''B'', Token_ID = 1, Price = 250\<rparr>]
       \<and> true_decimal_price ''2.50'' < true_decimal_price ''30''
       \<and> label_generator True [\<lparr>Buyer = ''A'', Token_ID = 1, Price = Some ''0.02 ETH ($30)''\<rparr>,
                           \<lparr>Buyer = ''B'', Token_ID = 1, Price = Some ''0.001 ETH ($2.50)''\<rparr>]
           = Inr ([''A'', ''B''], [1, 1], [1, 0])"
  using price_lambda_shape [OF assms] parse_prices_30_250 true_price_30_250 label_30_250
  by (intro conjI)

theorem price_lambda_deletes_point_witness:
  "CHR '' '' \<notin> set ''0.5'' \<and> CHR '' '' \<notin> set ''ETH'' \<and> CHR '' '' \<notin> set ''1,234.56''
   \<and> price_lambda ''0.5 ETH ($1,234.56)'' = Inr ''123456''"
proof -
  have a: "CHR '' '' \<notin> set ''0.5''" and b: "CHR '' '' \<notin> set ''ETH''"
    and c: "CHR '' '' \<notin> set ''1,234.56''" by simp_all
  from price_lambda_deletes_point [OF a b c]
  have "price_lambda ''0.5 ETH ($1,234.56)'' = Inr ''123456''" by simp
  with a b c show ?thesis by (intro conjI)
qed

section \<open>Properties of the index mapper\<close>

lemma enumerate_fold_hit:
  "n \<le> length xs \<Longrightarrow> distinct xs \<Longrightarrow> i < n
     \<Longrightarrow> fold (\<lambda>i m. m(xs ! i \<mapsto> f i)) [0..<n] m0 (xs ! i) = Some (f i)"
proof (induction n)
  case 0
  then show ?case by simp
next
  case (Suc n)
  show ?case
  proof (cases "i = n")
    case True
    then show ?thesis by simp
  next
    case False
    with Suc.prems have "i < n" "xs ! i \<noteq> xs ! n"
      by (auto simp: nth_eq_iff_index_eq)
    with Suc show ?thesis by simp
  qed
qed

lemma enumerate_fold_miss:
  "n \<le> length xs \<Longrightarrow> k \<notin> set (take n xs)
     \<Longrightarrow> fold (\<lambda>i m. m(xs ! i \<mapsto> f i)) [0..<n] m0 k = m0 k"
proof (induction n)
  case 0
  then show ?case by simp
next
  case (Suc n)
  then have "k \<noteq> xs ! n" "k \<notin> set (take n xs)"
    by (auto simp: take_Suc_conv_app_nth)
  with Suc show ?case by simp
qed

lemma enumerate_fold_defined:
  "i < n \<Longrightarrow> fold (\<lambda>i m. m(xs ! i \<mapsto> f i)) [0..<n] m0 (xs ! i) \<noteq> None"
proof (induction n)
  case 0
  then show ?case by simp
next
  case (Suc n)
  then show ?case by (cases "i = n") auto
qed

lemma np_unique_props:
  "sorted (np_unique xs)" "distinct (np_unique xs)" "set (np_unique xs) = set xs"
  "length (np_unique xs) = card (set xs)"
  by (simp_all add: np_unique_def length_remdups_card_conv)

lemma enumerate_from_nth:
  "distinct xs \<Longrightarrow> i < length xs \<Longrightarrow> enumerate_from off xs (xs ! i) = Some (i + off)"
  unfolding enumerate_from_def by (rule enumerate_fold_hit) simp_all

lemma enumerate_from_dom: "dom (enumerate_from off xs) = set xs"
proof (rule set_eqI)
  fix k
  show "k \<in> dom (enumerate_from off xs) \<longleftrightarrow> k \<in> set xs"
  proof (cases "k \<in> set xs")
    case True
    then obtain i where "i < length xs" "xs ! i = k" by (auto simp: in_set_conv_nth)
    then have "enumerate_from off xs k \<noteq> None"
      using enumerate_fold_defined [of i "length xs" xs "\<lambda>i. i + off" Map.empty]
      by (simp add: enumerate_from_def)
    with True show ?thesis by (simp add: dom_def)
  next
    case False
    then have "enumerate_from off xs k = None"
      unfolding enumerate_from_def by (subst enumerate_fold_miss) simp_all
    with False show ?thesis by (simp add: dom_def)
  qed
qed

lemma enumerate_from_ran:
  assumes "distinct xs"
  shows "ran (enumerate_from off xs) = {off..<off + length xs}"
proof (rule set_eqI)
  fix v
  show "v \<in> ran (enumerate_from off xs) \<longleftrightarrow> v \<in> {off..<off + length xs}"
  proof
    assume "v \<in> ran (enumerate_from off xs)"
    then obtain k where k: "enumerate_from off xs k = Some v" by (auto simp: ran_def)
    then have "k \<in> set xs" using enumerate_from_dom [of off xs] by (auto simp: dom_def)
    then obtain i where "i < length xs" "xs ! i = k" by (auto simp: in_set_conv_nth)
    with k assms show "v \<in> {off..<off + length xs}"
      by (auto simp: enumerate_from_nth)
  next
    assume "v \<in> {off..<off + length xs}"
    then have "v - off < length xs" "v - off + off = v" by auto
    with assms have "enumerate_from off xs (xs ! (v - off)) = Some v"
      by (simp add: enumerate_from_nth)
    then show "v \<in> ran (enumerate_from off xs)" by (auto simp: ran_def)
  qed
qed

lemma enumerate_from_bij:
  assumes "distinct xs"
  shows "bij_betw (\<lambda>k. the (enumerate_from off xs k)) (set xs) {off..<off + length xs}"
proof (rule bij_betwI')
  fix x y assume "x \<in> set xs" "y \<in> set xs"
  then obtain i j where ij: "i < length xs" "xs ! i = x" "j < length xs" "xs ! j = y"
    by (auto simp: in_set_conv_nth)
  with assms show "(the (enumerate_from off xs x) = the (enumerate_from off xs y)) = (x = y)"
    by (auto simp: enumerate_from_nth)
next
  fix x assume "x \<in> set xs"
  then obtain i where "i < length xs" "xs ! i = x" by (auto simp: in_set_conv_nth)
  with assms show "the (enumerate_from off xs x) \<in> {off..<off + length xs}"
    by (auto simp: enumerate_from_nth)
next
  fix v assume "v \<in> {off..<off + length xs}"
  then have "v - off < length xs" "v - off + off = v" by auto
  with assms have "enumerate_from off xs (xs ! (v - off)) = Some v"
    by (simp add: enumerate_from_nth)
  with \<open>v - off < length xs\<close> show "\<exists>x\<in>set xs. v = the (enumerate_from off xs x)"
    by (intro bexI [of _ "xs ! (v - off)"]) auto
qed

lemma mapping_i_enum: "mapping_i item = enumerate_from 0 (np_unique item)"
  by (simp add: mapping_i_def enumerate_from_def Let_def)

lemma mapping_u_enum: "mapping_u user item = enumerate_from (card (set item)) (np_unique user)"
  by (simp add: mapping_u_def enumerate_from_def length_remdups_card_conv Let_def)

lemma mapping_i_example: "mapping_i [5,6,8] = [5 \<mapsto> 0, 6 \<mapsto> 1, 8 \<mapsto> 2]"
  by (simp add: mapping_i_def np_unique_def upt_rec eval_nat_numeral)
lemma mapping_u_example: "mapping_u [''A'', ''B''] [5,6,8] = [''A'' \<mapsto> 3, ''B'' \<mapsto> 4]"
  by (simp add: mapping_u_def np_unique_def upt_rec eval_nat_numeral)

text \<open>
  C7. \<open>np.unique\<close> gives the distinct ids in ascending order; \<open>mapping_i\<close> sends the
  \<open>i\<close>-th of them to \<open>i\<close> and \<open>mapping_u\<close> sends the \<open>i\<close>-th user to
  \<open>num_items + i\<close>. Each map is defined exactly on its ids and is a bijection onto
  its range, \<open>[0, num_items)\<close> and \<open>[num_items, num_items + num_users)\<close>; the
  ranges are disjoint. For items 5, 6, 8 and users A, B the maps are
  \<open>{5:0, 6:1, 8:2}\<close> and \<open>{A:3, B:4}\<close>.
\<close>

theorem index_mapper_dense_disjoint:
  "sorted (np_unique item) \<and> distinct (np_unique item) \<and> set (np_unique item) = set item
   \<and> sorted (np_unique user) \<and> distinct (np_unique user) \<and> set (np_unique user) = set user
   \<and> (\<forall>i < card (set item). mapping_i item (np_unique item ! i) = Some i)
   \<and> (\<forall>i < card (set user).
         mapping_u user item (np_unique user ! i) = Some (card (set item) + i))
   \<and> dom (mapping_i item) = set item \<and> dom (mapping_u user item) = set user
   \<and> bij_betw (\<lambda>k. the (mapping_i item k)) (set item) {0..<card (set item)}
   \<and> bij_betw (\<lambda>k. the (mapping_u user item k)) (set user)
        {card (set item)..<card (set item) + card (set user)}
   \<and> ran (mapping_i item) = {0..<card (set item)}
   \<and> ran (mapping_u user item) = {card (set item)..<card (set item) + card (set user)}
   \<and> ran (mapping_i item) \<inter> ran (mapping_u user item) = {}
   \<and> mapping_i [5, 6, 8] = [5 \<mapsto> 0, 6 \<mapsto> 1, 8 \<mapsto> 2]
   \<and> mapping_u [''A'', ''B''] [5, 6, 8] = [''A'' \<mapsto> 3, ''B'' \<mapsto> 4]"
proof -
  let ?n = "card (set item)"
  have ri: "ran (mapping_i item) = {0..<?n}"
    using enumerate_from_ran [of "np_unique item" 0]
    by (simp add: mapping_i_enum np_unique_props)
  have ru: "ran (mapping_u user item) = {?n..<?n + card (set user)}"
    using enumerate_from_ran [of "np_unique user" ?n]
    by (simp add: mapping_u_enum np_unique_props)
  have bi: "bij_betw (\<lambda>k. the (mapping_i item k)) (set item) {0..<?n}"
    using enumerate_from_bij [of "np_unique item" 0]
    by (simp add: mapping_i_enum np_unique_props)
  have bu: "bij_betw (\<lambda>k. the (mapping_u user item k)) (set user) {?n..<?n + card (set user)}"
    using enumerate_from_bij [of "np_unique user" ?n]
    by (simp add: mapping_u_enum np_unique_props)
  have ei: "\<forall>i < ?n. mapping_i item (np_unique item ! i) = Some i"
    by (simp add: mapping_i_enum enumerate_from_nth np_unique_props)
  have eu: "\<forall>i < card (set user). mapping_u user item (np_unique user ! i) = Some (?n + i)"
    by (simp add: mapping_u_enum enumerate_from_nth np_unique_props add.commute)
  have di: "dom (mapping_i item) = set item"
    by (simp add: mapping_i_enum enumerate_from_dom np_unique_props)
  have du: "dom (mapping_u user item) = set user"
    by (simp add: mapping_u_enum enumerate_from_dom np_unique_props)
  have dj: "ran (mapping_i item) \<inter> ran (mapping_u user item) = {}"
    unfolding ri ru by auto
  show ?thesis
    using ri ru bi bu ei eu di dj du mapping_i_example mapping_u_example np_unique_props(1-3) [of item]
      np_unique_props(1-3) [of user]
    by (intro conjI)
qed

theorem index_mapper_dense_disjoint_witness:
  "(2::nat) < card (set [8, 5, 6, 5 :: int]) \<and> mapping_i [8, 5, 6, 5] 8 = Some 2
   \<and> (1::nat) < card (set [''B'', ''A'', ''B''])
   \<and> mapping_u [''B'', ''A'', ''B''] [8, 5, 6, 5] ''B'' = Some 4"
proof -
  let ?item = "[8, 5, 6, 5 :: int]" and ?user = "[''B'', ''A'', ''B'']"
  have ci: "card (set ?item) = 3" and cu: "card (set ?user) = 2" by code_simp+
  have ui: "np_unique ?item ! 2 = 8" and uu: "np_unique ?user ! 1 = ''B''"
    by (simp_all add: np_unique_def)
  from index_mapper_dense_disjoint [of ?item ?user]
  have "\<forall>i < card (set ?item). mapping_i ?item (np_unique ?item ! i) = Some i"
    and "\<forall>i < card (set ?user).
           mapping_u ?user ?item (np_unique ?user ! i) = Some (card (set ?item) + i)"
    by blast+
  then have "mapping_i ?item (np_unique ?item ! 2) = Some 2"
    and "mapping_u ?user ?item (np_unique ?user ! 1) = Some (card (set ?item) + 1)"
    unfolding ci cu by simp_all
  then show ?thesis unfolding ui uu ci cu by simp
qed

section \<open>Properties of the split engine\<close>

lemma sampler_rotate_choice: "sampler rotate_choice"
proof -
  have "set (take k (rotate g a)) \<subseteq> set a" for k g and a :: "nat list"
    using set_take_subset [of k "rotate g a"] by simp
  then show ?thesis
    by (simp add: sampler_def rotate_choice_def)
qed

lemma shuffle_rev_permutation: "shuffle rev_permutation"
  by (simp add: shuffle_def rev_permutation_def)

lemma num_sample_le: "num_sample n \<le> n"
  by (simp add: num_sample_def)

lemma num_sample_floor: "num_sample n = nat \<lfloor>0.4 * real n\<rfloor>"
proof -
  have "0.4 * real n = real (n * 4) / real 10" by simp
  then have "\<lfloor>0.4 * real n\<rfloor> = int ((n * 4) div 10)"
    by (simp only: floor_divide_of_nat_eq)
  then show ?thesis by (simp add: num_sample_def)
qed

lemma np_where_props:
  "distinct (np_where inter' u)"
  "set (np_where inter' u) = {i. i < length inter' \<and> fst (inter' ! i) = u}"
  by (auto simp: np_where_def)

lemma length_np_where:
  "length (np_where inter' u) = length (filter (\<lambda>r. fst r = u) inter')"
proof -
  have "filter (\<lambda>r. fst r = u) (map (\<lambda>i. inter' ! i) [0..<length inter'])
          = map (\<lambda>i. inter' ! i) (np_where inter' u)"
    by (simp add: np_where_def filter_map comp_def)
  then have "length (filter (\<lambda>r. fst r = u) (map (\<lambda>i. inter' ! i) [0..<length inter']))
          = length (np_where inter' u)"
    by simp
  then show ?thesis by (simp only: map_nth)
qed

lemma filter_user_picked:
  assumes "set picked \<subseteq> {i. i < length inter' \<and> fst (inter' ! i) = u}"
  shows "filter (\<lambda>i. fst (inter' ! i) = v) picked = (if v = u then picked else [])"
  using assms by (induction picked) auto

lemma holdout_loop_props:
  assumes "sampler choice" "distinct us" "distinct acc"
    and "\<forall>i\<in>set acc. i < length inter' \<and> fst (inter' ! i) \<notin> set us"
  shows "distinct (fst (holdout_loop choice inter' us g acc))
       \<and> (\<forall>i\<in>set (fst (holdout_loop choice inter' us g acc)). i < length inter')
       \<and> (\<forall>v. length (filter (\<lambda>i. fst (inter' ! i) = v) (fst (holdout_loop choice inter' us g acc)))
              = length (filter (\<lambda>i. fst (inter' ! i) = v) acc)
                + (if v \<in> set us then num_sample (length (np_where inter' v)) else 0))"
  using assms(2-)
proof (induction us arbitrary: g acc)
  case Nil
  then show ?case by simp
next
  case (Cons u us)
  let ?rows = "np_where inter' u"
  let ?k = "num_sample (length ?rows)"
  obtain picked g' where ch: "choice g ?rows ?k = (picked, g')" by (cases "choice g ?rows ?k")
  from \<open>sampler choice\<close> have "length (fst (choice g ?rows ?k)) = ?k \<and> distinct (fst (choice g ?rows ?k))
          \<and> set (fst (choice g ?rows ?k)) \<subseteq> set ?rows"
    unfolding sampler_def using num_sample_le [of "length ?rows"] np_where_props(1) [of inter' u]
    by blast
  with ch have picked: "length picked = ?k" "distinct picked"
    "set picked \<subseteq> {i. i < length inter' \<and> fst (inter' ! i) = u}"
    by (simp_all add: np_where_props)
  have step: "holdout_loop choice inter' (u # us) g acc = holdout_loop choice inter' us g' (acc @ picked)"
    by (simp add: ch)
  from Cons.prems have u: "u \<notin> set us" "distinct us" by simp_all
  have d: "distinct (acc @ picked)"
    using Cons.prems picked by auto
  have inv: "\<forall>i\<in>set (acc @ picked). i < length inter' \<and> fst (inter' ! i) \<notin> set us"
    using Cons.prems picked u by auto
  note IH = Cons.IH [OF u(2) d inv, of g']
  have cnt: "length (filter (\<lambda>i. fst (inter' ! i) = v) (acc @ picked))
           = length (filter (\<lambda>i. fst (inter' ! i) = v) acc) + (if v = u then ?k else 0)" for v
    using filter_user_picked [OF picked(3), of v] picked(1) by simp
  let ?R = "fst (holdout_loop choice inter' us g' (acc @ picked))"
  have "length (filter (\<lambda>i. fst (inter' ! i) = v) ?R)
          = length (filter (\<lambda>i. fst (inter' ! i) = v) acc)
            + (if v \<in> set (u # us) then num_sample (length (np_where inter' v)) else 0)" for v
  proof -
    from IH have "length (filter (\<lambda>i. fst (inter' ! i) = v) ?R)
          = length (filter (\<lambda>i. fst (inter' ! i) = v) (acc @ picked))
            + (if v \<in> set us then num_sample (length (np_where inter' v)) else 0)"
      by blast
    then show ?thesis unfolding cnt using u(1) by auto
  qed
  with IH show ?case
    unfolding step by blast
qed

lemma holdout_props:
  assumes "sampler choice"
  shows "distinct (holdout choice g inter')"
    and "\<forall>i\<in>set (holdout choice g inter'). i < length inter'"
    and "length (filter (\<lambda>i. fst (inter' ! i) = u) (holdout choice g inter'))
           = num_sample (length (filter (\<lambda>r. fst r = u) inter'))"
proof -
  let ?us = "np_unique (map fst inter')"
  have us: "distinct ?us" "set ?us = fst ` set inter'" by (simp_all add: np_unique_def)
  note P = holdout_loop_props [OF assms us(1), of "[]" inter' g, simplified]
  from P show "distinct (holdout choice g inter')" by (simp add: holdout_def)
  from P show "\<forall>i\<in>set (holdout choice g inter'). i < length inter'" by (simp add: holdout_def)
  have "num_sample (length (np_where inter' u)) = 0" if "u \<notin> set ?us"
  proof -
    from that have "filter (\<lambda>r. fst r = u) inter' = []" by (auto simp: us filter_empty_conv)
    then show ?thesis by (simp add: length_np_where num_sample_def)
  qed
  with P show "length (filter (\<lambda>i. fst (inter' ! i) = u) (holdout choice g inter'))
           = num_sample (length (filter (\<lambda>r. fst r = u) inter'))"
    by (auto simp: holdout_def length_np_where)
qed


lemma train_test_split_error:
  "train_test_split permutation arr = Inl e \<longleftrightarrow> e = ValueError \<and> length arr < 2"
  by (auto simp: train_test_split_def Let_def)

lemma train_test_split_mset:
  assumes "shuffle permutation" "train_test_split permutation arr = Inr (a, b)"
  shows "mset (a @ b) = mset arr"
proof -
  let ?n = "length arr"
  let ?p = "permutation ?n"
  let ?t = "(?n + 1) div 2"
  from assms(1) have p: "mset ?p = mset [0..<?n]" by (simp add: shuffle_def)
  then have len: "length ?p = ?n" by (metis length_upt mset_eq_length minus_nat.diff_0)
  from assms(2) have a: "a = take_rows arr (take (?n - ?t) (drop ?t ?p))"
    and b: "b = take_rows arr (take ?t ?p)"
    by (auto simp: train_test_split_def Let_def split: if_splits)
  have "take (?n - ?t) (drop ?t ?p) = drop ?t ?p" using len by simp
  then have "a @ b = map (\<lambda>i. arr ! i) (drop ?t ?p @ take ?t ?p)"
    unfolding a b take_rows_def by simp
  moreover have "mset (drop ?t ?p @ take ?t ?p) = mset (take ?t ?p @ drop ?t ?p)"
    by (simp only: mset_append union_commute)
  ultimately have "mset (a @ b) = image_mset (\<lambda>i. arr ! i) (mset (take ?t ?p @ drop ?t ?p))"
    by (simp only: mset_map)
  also have "\<dots> = image_mset (\<lambda>i. arr ! i) (mset [0..<?n])"
    by (simp only: append_take_drop_id p)
  also have "\<dots> = mset (map (\<lambda>i. arr ! i) [0..<?n])" by simp
  also have "\<dots> = mset arr" by (simp only: map_nth)
  finally show ?thesis .
qed

lemma mset_distinct_indices:
  assumes "distinct idx" "\<forall>i\<in>set idx. i < n"
  shows "mset idx = mset (filter (\<lambda>i. i \<in> set idx) [0..<n])"
proof -
  have "set idx = set (filter (\<lambda>i. i \<in> set idx) [0..<n])" using assms(2) by auto
  moreover have "distinct (filter (\<lambda>i. i \<in> set idx) [0..<n])" by simp
  ultimately show ?thesis using assms(1) by (simp only: set_eq_iff_mset_eq_distinct)
qed

lemma index_partition:
  assumes "distinct idx" "\<forall>i\<in>set idx. i < n" "mset (v @ t) = mset idx"
  shows "mset (filter (\<lambda>i. i \<notin> set idx) [0..<n] @ v @ t) = mset [0..<n]"
proof -
  have "mset (filter (\<lambda>i. i \<notin> set idx) [0..<n] @ v @ t)
          = mset (filter (\<lambda>i. i \<notin> set idx) [0..<n]) + mset (filter (\<lambda>i. i \<in> set idx) [0..<n])"
    using assms(3) mset_distinct_indices [OF assms(1,2)] by simp
  also have "\<dots> = mset [0..<n]"
    using multiset_partition [of "mset [0..<n]" "\<lambda>i. i \<in> set idx"]
    by (simp only: mset_filter add.commute)
  finally show ?thesis .
qed

lemma take_rows_all:
  "mset idx = mset [0..<length arr] \<Longrightarrow> mset (take_rows arr idx) = mset arr"
proof -
  assume "mset idx = mset [0..<length arr]"
  then have "mset (take_rows arr idx) = mset (map (\<lambda>i. arr ! i) [0..<length arr])"
    unfolding take_rows_def mset_map by (rule arg_cong)
  then show ?thesis by (simp only: map_nth)
qed

lemma take_rows_append: "take_rows arr (a @ b) = take_rows arr a @ take_rows arr b"
  by (simp add: take_rows_def)

lemma np_delete_take_rows:
  "np_delete arr obj = take_rows arr (filter (\<lambda>i. i \<notin> set obj) [0..<length arr])"
  by (simp add: np_delete_def take_rows_def)

lemma data_split_cases:
  "(case data_split choice permutation g inter' of
      Inl e \<Rightarrow> e = ValueError \<and> length (holdout choice g inter') < 2
    | Inr s \<Rightarrow>
        2 \<le> length (holdout choice g inter')
        \<and> random_idx_list s = holdout choice g inter'
        \<and> train s = np_delete inter' (random_idx_list s)
        \<and> valid s = take_rows inter' (valid_idx_list s)
        \<and> test s = take_rows inter' (test_idx_list s)
        \<and> train_test_split permutation (random_idx_list s) = Inr (valid_idx_list s, test_idx_list s))"
proof (cases "train_test_split permutation (holdout choice g inter')")
  case (Inl e)
  then show ?thesis
    using train_test_split_error [of permutation "holdout choice g inter'" e]
    by (simp add: data_split_def Let_def)
next
  case (Inr vt)
  obtain v t where vt: "vt = (v, t)" by (cases vt)
  have "\<not> length (holdout choice g inter') < 2"
    using train_test_split_error [of permutation "holdout choice g inter'" ValueError] Inr
    by auto
  with Inr vt show ?thesis
    by (simp add: data_split_def Let_def)
qed

lemma count_rows_mset:
  assumes "mset xs = mset ys"
  shows "length (filter P xs) = length (filter P ys)"
proof -
  have "mset (filter P xs) = mset (filter P ys)" using assms by simp
  then show ?thesis by (rule mset_eq_length)
qed

lemma holdout_loop_length:
  assumes "sampler choice"
  shows "length (fst (holdout_loop choice inter' us g acc))
           = length acc + sum_list (map (\<lambda>u. num_sample (length (np_where inter' u))) us)"
proof (induction us arbitrary: g acc)
  case Nil
  then show ?case by simp
next
  case (Cons u us)
  let ?rows = "np_where inter' u"
  let ?k = "num_sample (length ?rows)"
  obtain picked g' where ch: "choice g ?rows ?k = (picked, g')" by (cases "choice g ?rows ?k")
  from assms have "length (fst (choice g ?rows ?k)) = ?k"
    unfolding sampler_def using num_sample_le [of "length ?rows"] np_where_props(1) [of inter' u]
    by blast
  with ch have "length picked = ?k" by simp
  moreover have "holdout_loop choice inter' (u # us) g acc
      = holdout_loop choice inter' us g' (acc @ picked)"
    by (simp add: ch)
  ultimately show ?case by (simp add: Cons.IH)
qed

lemma holdout_length:
  assumes "sampler choice"
  shows "length (holdout choice g inter')
           = (\<Sum>u\<in>fst ` set inter'. num_sample (length (filter (\<lambda>r. fst r = u) inter')))"
proof -
  let ?us = "np_unique (map fst inter')"
  have us: "distinct ?us" "set ?us = fst ` set inter'" by (simp_all add: np_unique_def)
  have "length (holdout choice g inter')
          = sum_list (map (\<lambda>u. num_sample (length (filter (\<lambda>r. fst r = u) inter'))) ?us)"
    by (simp add: holdout_def holdout_loop_length [OF assms] length_np_where)
  also have "\<dots> = (\<Sum>u\<in>set ?us. num_sample (length (filter (\<lambda>r. fst r = u) inter')))"
    using us(1) by (rule sum_list_distinct_conv_sum_set)
  finally show ?thesis by (simp only: us(2))
qed

lemma data_split_outcome:
  assumes "sampler choice" "shuffle permutation"
  shows "(case data_split choice permutation g inter' of
      Inl e \<Rightarrow> e = ValueError \<and> length (holdout choice g inter') < 2
    | Inr s \<Rightarrow>
        2 \<le> length (holdout choice g inter')
        \<and> mset (filter (\<lambda>i. i \<notin> set (random_idx_list s)) [0..<length inter']
                  @ valid_idx_list s @ test_idx_list s) = mset [0..<length inter']
        \<and> train s = take_rows inter' (filter (\<lambda>i. i \<notin> set (random_idx_list s)) [0..<length inter'])
        \<and> valid s = take_rows inter' (valid_idx_list s)
        \<and> test s = take_rows inter' (test_idx_list s)
        \<and> mset (train s @ valid s @ test s) = mset inter'
        \<and> length (filter (\<lambda>r. fst r = u) (train s)) + length (filter (\<lambda>r. fst r = u) (valid s))
             + length (filter (\<lambda>r. fst r = u) (test s))
           = length (filter (\<lambda>r. fst r = u) inter'))"
proof (cases "data_split choice permutation g inter'")
  case (Inl e)
  with data_split_cases [where choice = choice and permutation = permutation and g = g and inter' = inter'] show ?thesis by simp
next
  case (Inr s)
  with data_split_cases [where choice = choice and permutation = permutation and g = g and inter' = inter']
  have s: "2 \<le> length (holdout choice g inter')" "random_idx_list s = holdout choice g inter'"
    "train s = np_delete inter' (random_idx_list s)" "valid s = take_rows inter' (valid_idx_list s)"
    "test s = take_rows inter' (test_idx_list s)"
    "train_test_split permutation (random_idx_list s) = Inr (valid_idx_list s, test_idx_list s)"
    by auto
  let ?tr = "filter (\<lambda>i. i \<notin> set (random_idx_list s)) [0..<length inter']"
  have vt: "mset (valid_idx_list s @ test_idx_list s) = mset (random_idx_list s)"
    using train_test_split_mset [OF assms(2) s(6)] .
  have part: "mset (?tr @ valid_idx_list s @ test_idx_list s) = mset [0..<length inter']"
    using holdout_props(1,2) [OF assms(1), of g inter'] vt
    unfolding s(2) [symmetric] by (intro index_partition)
  have tr: "train s = take_rows inter' ?tr" by (simp only: s(3) np_delete_take_rows)
  have "train s @ valid s @ test s = take_rows inter' (?tr @ valid_idx_list s @ test_idx_list s)"
    by (simp only: tr s(4,5) take_rows_append)
  then have all: "mset (train s @ valid s @ test s) = mset inter'"
    using take_rows_all [OF part] by simp
  have "length (filter (\<lambda>r. fst r = u) (train s @ valid s @ test s))
          = length (filter (\<lambda>r. fst r = u) inter')"
    using all by (rule count_rows_mset)
  then have cnt: "length (filter (\<lambda>r. fst r = u) (train s)) + length (filter (\<lambda>r. fst r = u) (valid s))
             + length (filter (\<lambda>r. fst r = u) (test s))
           = length (filter (\<lambda>r. fst r = u) inter')"
    by simp
  from s(1) part tr s(4,5) all cnt show ?thesis
    unfolding Inr by simp
qed


text \<open>
  C6, as the claim states it, fails. A frame with one user and two rows holds out
  \<open>floor(0.4 * 2) = 0\<close> rows; \<open>train_test_split\<close> of the empty list raises ValueError
  and the cell ends without \<open>valid\<close> and \<open>test\<close>.
\<close>

theorem data_split_two_rows_counterexample:
  "data_split rotate_choice rev_permutation 0 [(3, 0, 0), (3, 1, 1)] = Inl ValueError"
  by code_simp

text \<open>
  C6, amended. With a sampler that draws without replacement and a shuffle that
  permutes: when at least two rows are held out in all, that is when the sum of
  \<open>floor(0.4 * n_u)\<close> over the users of \<open>inter\<close> is at least 2, the split cell returns
  \<open>train\<close>, \<open>valid\<close> and \<open>test\<close>, every row position of \<open>inter\<close> is in exactly one of
  the three index lists, the three arrays are the rows at those positions, together
  they hold the rows of \<open>inter\<close> with their multiplicities, and for every user the three
  row counts add up to the user's row count in \<open>inter\<close>. When the sum is below 2 the
  cell raises ValueError and there is no split.
\<close>

theorem data_split_partition:
  assumes "sampler choice" "shuffle permutation"
  shows "(2 \<le> (\<Sum>u\<in>fst ` set inter'. num_sample (length (filter (\<lambda>r. fst r = u) inter')))
          \<longrightarrow> (\<exists>s. data_split choice permutation g inter' = Inr s
                \<and> mset (filter (\<lambda>i. i \<notin> set (random_idx_list s)) [0..<length inter']
                          @ valid_idx_list s @ test_idx_list s) = mset [0..<length inter']
                \<and> train s
                    = take_rows inter'
                        (filter (\<lambda>i. i \<notin> set (random_idx_list s)) [0..<length inter'])
                \<and> valid s = take_rows inter' (valid_idx_list s)
                \<and> test s = take_rows inter' (test_idx_list s)
                \<and> mset (train s @ valid s @ test s) = mset inter'
                \<and> (\<forall>u. length (filter (\<lambda>r. fst r = u) (train s))
                          + length (filter (\<lambda>r. fst r = u) (valid s))
                          + length (filter (\<lambda>r. fst r = u) (test s))
                        = length (filter (\<lambda>r. fst r = u) inter'))))
       \<and> ((\<Sum>u\<in>fst ` set inter'. num_sample (length (filter (\<lambda>r. fst r = u) inter'))) < 2
          \<longrightarrow> data_split choice permutation g inter' = Inl ValueError)"
proof (intro conjI impI)
  assume "2 \<le> (\<Sum>u\<in>fst ` set inter'. num_sample (length (filter (\<lambda>r. fst r = u) inter')))"
  then have two: "2 \<le> length (holdout choice g inter')"
    by (simp only: holdout_length [OF assms(1)])
  obtain s where s: "data_split choice permutation g inter' = Inr s"
  proof (cases "data_split choice permutation g inter'")
    case (Inl e)
    with data_split_cases [where choice = choice and permutation = permutation and g = g
        and inter' = inter'] two
    show ?thesis by simp
  next
    case (Inr s)
    with that show ?thesis .
  qed
  note O = data_split_outcome [OF assms, where g = g and inter' = inter', unfolded s sum.case]
  have "\<forall>u. length (filter (\<lambda>r. fst r = u) (train s))
              + length (filter (\<lambda>r. fst r = u) (valid s))
              + length (filter (\<lambda>r. fst r = u) (test s))
            = length (filter (\<lambda>r. fst r = u) inter')"
  proof
    fix u
    from O [of u] show "length (filter (\<lambda>r. fst r = u) (train s))
              + length (filter (\<lambda>r. fst r = u) (valid s))
              + length (filter (\<lambda>r. fst r = u) (test s))
            = length (filter (\<lambda>r. fst r = u) inter')"
      by (elim conjE)
  qed
  with O [of 0] s
  show "\<exists>s. data_split choice permutation g inter' = Inr s
                \<and> mset (filter (\<lambda>i. i \<notin> set (random_idx_list s)) [0..<length inter']
                          @ valid_idx_list s @ test_idx_list s) = mset [0..<length inter']
                \<and> train s
                    = take_rows inter'
                        (filter (\<lambda>i. i \<notin> set (random_idx_list s)) [0..<length inter'])
                \<and> valid s = take_rows inter' (valid_idx_list s)
                \<and> test s = take_rows inter' (test_idx_list s)
                \<and> mset (train s @ valid s @ test s) = mset inter'
                \<and> (\<forall>u. length (filter (\<lambda>r. fst r = u) (train s))
                          + length (filter (\<lambda>r. fst r = u) (valid s))
                          + length (filter (\<lambda>r. fst r = u) (test s))
                        = length (filter (\<lambda>r. fst r = u) inter'))"
    by (intro exI [of _ s]) (elim conjE, intro conjI, assumption+)
next
  assume "(\<Sum>u\<in>fst ` set inter'. num_sample (length (filter (\<lambda>r. fst r = u) inter'))) < 2"
  then have lt: "length (holdout choice g inter') < 2"
    by (simp only: holdout_length [OF assms(1)])
  show "data_split choice permutation g inter' = Inl ValueError"
  proof (cases "data_split choice permutation g inter'")
    case (Inl e)
    with data_split_cases [where choice = choice and permutation = permutation and g = g
        and inter' = inter']
    show ?thesis by simp
  next
    case (Inr s)
    with data_split_cases [where choice = choice and permutation = permutation and g = g
        and inter' = inter'] lt
    show ?thesis by simp
  qed
qed

lemma held_out_total_example:
  "(\<Sum>u\<in>fst ` set ([(7, 0, 0), (7, 1, 0), (7, 2, 0), (7, 3, 0), (7, 4, 1), (8, 0, 0), (8, 1, 1),
                      (8, 1, 1)] :: inter_row list).
      num_sample (length (filter (\<lambda>r. fst r = u)
        ([(7, 0, 0), (7, 1, 0), (7, 2, 0), (7, 3, 0), (7, 4, 1), (8, 0, 0), (8, 1, 1), (8, 1, 1)]
           :: inter_row list))))
   = 3"
  by (simp add: num_sample_def)

theorem data_split_partition_witness:
  "sampler rotate_choice \<and> shuffle rev_permutation
   \<and> 2 \<le> (\<Sum>u\<in>fst ` set ([(7, 0, 0), (7, 1, 0), (7, 2, 0), (7, 3, 0), (7, 4, 1), (8, 0, 0),
                            (8, 1, 1), (8, 1, 1)] :: inter_row list).
        num_sample (length (filter (\<lambda>r. fst r = u)
          ([(7, 0, 0), (7, 1, 0), (7, 2, 0), (7, 3, 0), (7, 4, 1), (8, 0, 0), (8, 1, 1), (8, 1, 1)]
             :: inter_row list))))
   \<and> (\<exists>s. data_split rotate_choice rev_permutation 0
            [(7, 0, 0), (7, 1, 0), (7, 2, 0), (7, 3, 0), (7, 4, 1), (8, 0, 0), (8, 1, 1), (8, 1, 1)]
          = Inr s
        \<and> mset (train s @ valid s @ test s)
          = mset [(7, 0, 0), (7, 1, 0), (7, 2, 0), (7, 3, 0), (7, 4, 1), (8, 0, 0), (8, 1, 1),
                  (8, 1, 1)])
   \<and> (\<Sum>u\<in>fst ` set ([(4, 0, 0), (4, 1, 0), (4, 2, 1)] :: inter_row list).
        num_sample (length (filter (\<lambda>r. fst r = u)
          ([(4, 0, 0), (4, 1, 0), (4, 2, 1)] :: inter_row list)))) < 2
   \<and> data_split rotate_choice rev_permutation 0 [(4, 0, 0), (4, 1, 0), (4, 2, 1)]
       = Inl ValueError"
proof -
  let ?J = "[(4, 0, 0), (4, 1, 0), (4, 2, 1)] :: inter_row list"
  have one: "(\<Sum>u\<in>fst ` set ?J. num_sample (length (filter (\<lambda>r. fst r = u) ?J))) < 2"
    by (simp add: num_sample_def)
  from data_split_partition [OF sampler_rotate_choice shuffle_rev_permutation, of ?J 0,
      THEN conjunct2, THEN mp, OF one]
  have err: "data_split rotate_choice rev_permutation 0 ?J = Inl ValueError" .
  let ?I = "[(7, 0, 0), (7, 1, 0), (7, 2, 0), (7, 3, 0), (7, 4, 1), (8, 0, 0), (8, 1, 1), (8, 1, 1)]
              :: inter_row list"
  have two: "2 \<le> (\<Sum>u\<in>fst ` set ?I. num_sample (length (filter (\<lambda>r. fst r = u) ?I)))"
    by (simp only: held_out_total_example)
  from data_split_partition [OF sampler_rotate_choice shuffle_rev_permutation, of ?I 0,
      THEN conjunct1, THEN mp, OF two]
  have "\<exists>s. data_split rotate_choice rev_permutation 0 ?I = Inr s
          \<and> mset (train s @ valid s @ test s) = mset ?I"
    by blast
  with sampler_rotate_choice shuffle_rev_permutation two one err show ?thesis
    by (intro conjI)
qed

lemma filter_np_delete_untouched:
  assumes "\<forall>i\<in>set idx. fst (arr ! i) \<noteq> u"
  shows "filter (\<lambda>r. fst r = u) (np_delete arr idx) = filter (\<lambda>r. fst r = u) arr"
proof -
  have "filter (\<lambda>i. fst (arr ! i) = u) (filter (\<lambda>i. i \<notin> set idx) [0..<length arr])
          = filter (\<lambda>i. fst (arr ! i) = u) [0..<length arr]"
    unfolding filter_filter using assms by (intro filter_cong) auto
  then have "filter (\<lambda>r. fst r = u) (np_delete arr idx)
          = filter (\<lambda>r. fst r = u) (map (\<lambda>i. arr ! i) [0..<length arr])"
    by (simp add: np_delete_def filter_map comp_def)
  then show ?thesis by (simp only: map_nth)
qed

lemma holdout_two_rows:
  assumes "sampler choice" "length (filter (\<lambda>r. fst r = u) inter') = 2"
  shows "filter (\<lambda>i. fst (inter' ! i) = u) (holdout choice g inter') = []"
    and "filter (\<lambda>r. fst r = u) (np_delete inter' (holdout choice g inter'))
           = filter (\<lambda>r. fst r = u) inter'"
proof -
  have "length (filter (\<lambda>i. fst (inter' ! i) = u) (holdout choice g inter')) = 0"
    using holdout_props(3) [OF assms(1), of inter' u g] assms(2) by (simp add: num_sample_def)
  then show e: "filter (\<lambda>i. fst (inter' ! i) = u) (holdout choice g inter') = []" by simp
  then have "\<forall>i\<in>set (holdout choice g inter'). fst (inter' ! i) \<noteq> u"
    by (simp add: filter_empty_conv)
  then show "filter (\<lambda>r. fst r = u) (np_delete inter' (holdout choice g inter'))
           = filter (\<lambda>r. fst r = u) inter'"
    by (rule filter_np_delete_untouched)
qed

lemma data_split_train:
  assumes "data_split choice permutation g inter' = Inr s"
  shows "random_idx_list s = holdout choice g inter' \<and> train s = np_delete inter' (holdout choice g inter')"
  using data_split_cases [where choice = choice and permutation = permutation and g = g
      and inter' = inter'] assms by auto

text \<open>
  C10. The held-out positions are distinct positions of \<open>inter\<close>, and for every user
  \<open>u\<close> the number of held-out positions whose row belongs to \<open>u\<close> is
  \<open>floor(0.4 * n_u)\<close>. A user with exactly two rows has none of them held out and
  keeps both rows in \<open>train\<close>, which is \<open>inter\<close> without the held-out positions.
  That the draw is uniform is numpy's business and is not part of the model.
\<close>

theorem holdout_takes_floor_of_two_fifths:
  assumes "sampler choice"
  shows "distinct (holdout choice g inter')
       \<and> (\<forall>i\<in>set (holdout choice g inter'). i < length inter')
       \<and> length (filter (\<lambda>i. fst (inter' ! i) = u) (holdout choice g inter'))
           = nat \<lfloor>0.4 * real (length (filter (\<lambda>r. fst r = u) inter'))\<rfloor>
       \<and> (length (filter (\<lambda>r. fst r = u) inter') = 2 \<longrightarrow>
            filter (\<lambda>i. fst (inter' ! i) = u) (holdout choice g inter') = []
            \<and> filter (\<lambda>r. fst r = u) (np_delete inter' (holdout choice g inter'))
                = filter (\<lambda>r. fst r = u) inter')
       \<and> (data_split choice permutation g inter' = Inr s \<longrightarrow>
            random_idx_list s = holdout choice g inter'
            \<and> train s = np_delete inter' (holdout choice g inter'))"
  using holdout_props(1,2) [OF assms, where g = g and inter' = inter']
    holdout_props(3) [OF assms, where g = g and inter' = inter' and u = u]
    holdout_two_rows [OF assms, where u = u and inter' = inter' and g = g]
    data_split_train [where choice = choice and permutation = permutation and g = g
      and inter' = inter' and s = s]
  by (simp only: num_sample_floor) blast

lemma data_split_run2:
  "data_split rotate_choice rev_permutation 0
     [(7, 0, 0), (9, 5, 1), (7, 1, 0), (7, 2, 0), (7, 3, 0), (9, 6, 0), (7, 4, 1)]
   = Inr \<lparr>random_idx_list = [0, 2],
          train = [(9, 5, 1), (7, 2, 0), (7, 3, 0), (9, 6, 0), (7, 4, 1)],
          valid_idx_list = [0], test_idx_list = [2], valid = [(7, 0, 0)],
          test = [(7, 1, 0)]\<rparr>"
  by code_simp

theorem holdout_takes_floor_of_two_fifths_witness:
  "sampler rotate_choice
   \<and> length (filter (\<lambda>r. fst r = 9)
        ([(7, 0, 0), (9, 5, 1), (7, 1, 0), (7, 2, 0), (7, 3, 0), (9, 6, 0), (7, 4, 1)]
           :: inter_row list)) = 2
   \<and> filter (\<lambda>r. fst r = 9)
         ([(9, 5, 1), (7, 2, 0), (7, 3, 0), (9, 6, 0), (7, 4, 1)] :: inter_row list)
       = filter (\<lambda>r. fst r = 9)
           ([(7, 0, 0), (9, 5, 1), (7, 1, 0), (7, 2, 0), (7, 3, 0), (9, 6, 0), (7, 4, 1)]
              :: inter_row list)"
proof -
  let ?I = "[(7, 0, 0), (9, 5, 1), (7, 1, 0), (7, 2, 0), (7, 3, 0), (9, 6, 0), (7, 4, 1)] :: inter_row list"
  let ?s = "\<lparr>random_idx_list = [0, 2],
          train = [(9, 5, 1), (7, 2, 0), (7, 3, 0), (9, 6, 0), (7, 4, 1)],
          valid_idx_list = [0], test_idx_list = [2], valid = [(7, 0, 0)],
          test = [(7, 1, 0)]\<rparr> :: split"
  have two: "length (filter (\<lambda>r. fst r = 9) ?I) = 2" by simp
  note P = holdout_takes_floor_of_two_fifths [OF sampler_rotate_choice,
      of 0 ?I 9 rev_permutation ?s]
  from P two data_split_run2
  have "train ?s = np_delete ?I (holdout rotate_choice 0 ?I)"
    and "filter (\<lambda>r. fst r = 9) (np_delete ?I (holdout rotate_choice 0 ?I))
           = filter (\<lambda>r. fst r = 9) ?I"
    by blast+
  then have "filter (\<lambda>r. fst r = 9) (train ?s) = filter (\<lambda>r. fst r = 9) ?I" by simp
  with two sampler_rotate_choice show ?thesis by simp
qed

text \<open>
  C3. The held-out rows follow the state of the process generator, which the notebook
  never seeds; the seed of \<open>train_test_split\<close> only fixes how the drawn positions are
  divided. On one user with five rows, the same frame and the same shuffle give
  different \<open>train\<close>, \<open>valid\<close> and \<open>test\<close> for two generator states.
\<close>

theorem data_split_follows_generator_state:
  "data_split rotate_choice rev_permutation 0
     [(7, 0, 0), (7, 1, 0), (7, 2, 0), (7, 3, 0), (7, 4, 1)]
   = Inr \<lparr>random_idx_list = [0, 1], train = [(7, 2, 0), (7, 3, 0), (7, 4, 1)],
          valid_idx_list = [0], test_idx_list = [1], valid = [(7, 0, 0)], test = [(7, 1, 0)]\<rparr>
   \<and> data_split rotate_choice rev_permutation 1
     [(7, 0, 0), (7, 1, 0), (7, 2, 0), (7, 3, 0), (7, 4, 1)]
   = Inr \<lparr>random_idx_list = [1, 2], train = [(7, 0, 0), (7, 3, 0), (7, 4, 1)],
          valid_idx_list = [1], test_idx_list = [2], valid = [(7, 1, 0)], test = [(7, 2, 0)]\<rparr>"
  by code_simp

section \<open>Properties of the adjacency builder\<close>

lemma dict_of_rows_fold:
  "dict_of_rows arr = fold (\<lambda>r d. dict_append d r) arr Map.empty"
proof -
  have "fold (\<lambda>r d. dict_append d r) (map (\<lambda>i. arr ! i) [0..<length arr]) Map.empty
          = fold (\<lambda>i d. dict_append d (arr ! i)) [0..<length arr] Map.empty"
    by (simp add: fold_map comp_def)
  then show ?thesis by (simp only: dict_of_rows_def map_nth)
qed

lemma dict_append_at:
  "dict_append d r u =
     (if fst r = u then Some ((case d u of None \<Rightarrow> [] | Some old \<Rightarrow> old) @ [fst (snd r)])
      else d u)"
  by (simp add: dict_append_def split: option.split)

lemma fold_dict_append:
  "fold (\<lambda>r d. dict_append d r) arr d u =
     (let items = map (\<lambda>r. fst (snd r)) (filter (\<lambda>r. fst r = u) arr)
      in case d u of
           None \<Rightarrow> if items = [] then None else Some items
         | Some old \<Rightarrow> Some (old @ items))"
proof (induction arr arbitrary: d)
  case Nil
  then show ?case by (simp split: option.split)
next
  case (Cons r arr)
  have "fold (\<lambda>r d. dict_append d r) (r # arr) d u
          = fold (\<lambda>r d. dict_append d r) arr (dict_append d r) u"
    by simp
  also have "\<dots> = (let items = map (\<lambda>r. fst (snd r)) (filter (\<lambda>r. fst r = u) arr)
      in case dict_append d r u of
           None \<Rightarrow> if items = [] then None else Some items
         | Some old \<Rightarrow> Some (old @ items))"
    by (rule Cons.IH)
  also have "\<dots> = (let items = map (\<lambda>r. fst (snd r)) (filter (\<lambda>r. fst r = u) (r # arr))
      in case d u of
           None \<Rightarrow> if items = [] then None else Some items
         | Some old \<Rightarrow> Some (old @ items))"
    by (simp add: dict_append_at Let_def split: option.split)
  finally show ?case .
qed

lemma dict_of_rows_entry:
  "dict_of_rows arr u =
     (if u \<in> fst ` set arr then Some (map (\<lambda>r. fst (snd r)) (filter (\<lambda>r. fst r = u) arr))
      else None)"
proof -
  have "(filter (\<lambda>r. fst r = u) arr = []) = (u \<notin> fst ` set arr)"
    by (auto simp: filter_empty_conv)
  then show ?thesis
    by (simp add: dict_of_rows_fold fold_dict_append Let_def)
qed

text \<open>
  C2, amended. The adjacency map is built from all rows of \<open>inter\<close>: a user's entry
  is the sequence of the mapped item ids in that user's rows of \<open>inter\<close>, with
  multiplicity and in row order, whether the split held a row out or not; a user with
  no row has no entry. \<open>valid_dict\<close> and \<open>test_dict\<close> are the same grouping of
  \<open>valid\<close> and \<open>test\<close>.
\<close>

theorem adj_dict_from_inter:
  "adj_dict inter' u =
     (if u \<in> fst ` set inter'
      then Some (map (\<lambda>r. fst (snd r)) (filter (\<lambda>r. fst r = u) inter'))
      else None)
   \<and> valid_dict s u =
     (if u \<in> fst ` set (valid s)
      then Some (map (\<lambda>r. fst (snd r)) (filter (\<lambda>r. fst r = u) (valid s)))
      else None)
   \<and> test_dict s u =
     (if u \<in> fst ` set (test s)
      then Some (map (\<lambda>r. fst (snd r)) (filter (\<lambda>r. fst r = u) (test s)))
      else None)"
  by (simp only: adj_dict_def valid_dict_def test_dict_def dict_of_rows_entry simp_thms)

text \<open>
  C2, as the claim states it, fails. User 7 has five rows; the split holds out the rows
  of items 10 and 11 and leaves 12, 13, 14 in \<open>train\<close>, yet the user's adjacency
  entry lists all five items.
\<close>

theorem adj_dict_held_out_counterexample:
  "data_split rotate_choice rev_permutation 0
     [(7, 10, 0), (7, 11, 0), (7, 12, 0), (7, 13, 0), (7, 14, 1)]
   = Inr \<lparr>random_idx_list = [0, 1], train = [(7, 12, 0), (7, 13, 0), (7, 14, 1)],
          valid_idx_list = [0], test_idx_list = [1], valid = [(7, 10, 0)], test = [(7, 11, 0)]\<rparr>
   \<and> adj_dict [(7, 10, 0), (7, 11, 0), (7, 12, 0), (7, 13, 0), (7, 14, 1)] 7
       = Some [10, 11, 12, 13, 14]
   \<and> map (\<lambda>r. fst (snd r))
         (filter (\<lambda>r. fst r = 7) ([(7, 12, 0), (7, 13, 0), (7, 14, 1)] :: inter_row list))
       = [12, 13, 14]"
  by code_simp

theorem adj_dict_from_inter_witness:
  "(7::nat) \<in> fst ` set ([(7, 10, 0), (8, 3, 1), (7, 11, 0), (7, 10, 1)] :: inter_row list)
   \<and> adj_dict [(7, 10, 0), (8, 3, 1), (7, 11, 0), (7, 10, 1)] 7 = Some [10, 11, 10]"
proof -
  let ?I = "[(7, 10, 0), (8, 3, 1), (7, 11, 0), (7, 10, 1)] :: inter_row list"
  have m: "(7::nat) \<in> fst ` set ?I" by simp
  from adj_dict_from_inter [of ?I 7]
  have "adj_dict ?I 7 = (if 7 \<in> fst ` set ?I
      then Some (map (\<lambda>r. fst (snd r)) (filter (\<lambda>r. fst r = 7) ?I)) else None)"
    by (rule conjunct1)
  with m show ?thesis by simp
qed

section \<open>Properties of the feature aligner\<close>

lemma index_align:
  "index (align item t) = map (mapping_i item) (filter (\<lambda>k. k \<in> set item) (index t))"
  by (simp add: align_def index_map_def isin_rows_def index_def np_unique_props filter_map comp_def)

lemma map_mapping_i_unique:
  "map (mapping_i item) (np_unique item) = map Some [0..<card (set item)]"
  by (rule nth_equalityI)
    (simp_all add: np_unique_props mapping_i_enum enumerate_from_nth)

lemma mapping_i_image: "mapping_i item ` set item = Some ` {0..<card (set item)}"
proof -
  have "mapping_i item ` set (np_unique item) = set (map (mapping_i item) (np_unique item))"
    by simp
  also have "\<dots> = Some ` {0..<card (set item)}"
    by (simp only: map_mapping_i_unique) simp
  finally show ?thesis by (simp only: np_unique_props)
qed

lemma set_index_align:
  assumes "set item \<subseteq> set (index t)"
  shows "set (index (align item t)) = Some ` {0..<card (set item)}"
proof -
  have "set (filter (\<lambda>k. k \<in> set item) (index t)) = set item" using assms by auto
  then show ?thesis by (simp only: index_align set_map mapping_i_image)
qed

lemma mset_index_align:
  assumes "set item \<subseteq> set (index t)" "distinct (index t)"
  shows "mset (index (align item t)) = mset (map Some [0..<card (set item)])"
proof -
  let ?keys = "filter (\<lambda>k. k \<in> set item) (index t)"
  have "set ?keys = set (np_unique item)" using assms(1) by (auto simp: np_unique_props)
  moreover have "distinct ?keys" using assms(2) by simp
  ultimately have "mset ?keys = mset (np_unique item)"
    using np_unique_props(2) [of item] by (simp only: set_eq_iff_mset_eq_distinct)
  then have "mset (map (mapping_i item) ?keys) = mset (map (mapping_i item) (np_unique item))"
    by (simp only: mset_map)
  then show ?thesis by (simp only: index_align map_mapping_i_unique)
qed

lemma np_sort_dense:
  assumes "mset ks = mset (map Some [0..<n])"
  shows "np_sort ks = map Some [0..<n]"
proof -
  have "set ks = Some ` {0..<n}" using mset_eq_setD [OF assms] by simp
  then have nn: "\<forall>k\<in>set ks. k \<noteq> None" by auto
  then have f1: "filter (\<lambda>k. k \<noteq> None) ks = ks" and f2: "filter (\<lambda>k. k = None) ks = []"
    by (simp_all add: filter_empty_conv)
  have "mset (map the ks) = image_mset the (mset (map Some [0..<n]))"
    using assms by (simp only: mset_map)
  also have "\<dots> = mset [0..<n]" by (simp add: multiset.map_comp comp_def)
  finally have "sort (map the ks) = [0..<n]"
    by (intro properties_for_sort) simp_all
  then show ?thesis unfolding np_sort_def f1 f2 by simp
qed

lemma array_equal_same: "None \<notin> set a \<Longrightarrow> array_equal a a"
proof -
  assume "None \<notin> set a"
  then have "\<forall>x\<in>set a. x \<noteq> None \<and> x = x" by (metis (full_types))
  then have "list_all2 (\<lambda>x y. x \<noteq> None \<and> x = y) a a" by (simp only: list_all2_same)
  then show ?thesis by (simp only: array_equal_def simp_thms)
qed

lemma array_equal_eq: "array_equal a b \<Longrightarrow> a = b \<and> None \<notin> set a"
proof -
  assume "array_equal a b"
  then have "list_all2 (\<lambda>x y. x \<noteq> None \<and> x = y) a b" by (simp add: array_equal_def)
  then show ?thesis by (induction rule: list_all2_induct) auto
qed

lemma set_np_sort: "set (np_sort ks) = set ks"
proof -
  have "Some ` the ` {k \<in> set ks. k \<noteq> None} = {k \<in> set ks. k \<noteq> None}"
    by (force simp: image_iff)
  then show ?thesis by (auto simp: np_sort_def)
qed

lemma feature_aligner_Inl: "feature_aligner im tx pr tr item = Inl e \<Longrightarrow> e = AssertionError"
  by (auto simp: feature_aligner_def Let_def split: if_splits)

lemma feature_aligner_Inr:
  assumes "feature_aligner im tx pr tr item = Inr (a, b, c, d)"
  shows "a = align item im \<and> b = align item tx \<and> c = align item pr \<and> d = align item tr
       \<and> set (index a) = set (index b) \<and> set (index a) = set (index c)
       \<and> set (index a) = set (index d) \<and> None \<notin> set (index a)"
proof -
  from assms have r: "a = align item im" "b = align item tx" "c = align item pr" "d = align item tr"
    and e: "array_equal (np_sort (index a)) (np_sort (index b))"
      "array_equal (np_sort (index a)) (np_sort (index c))"
      "array_equal (np_sort (index a)) (np_sort (index d))"
    by (auto simp: feature_aligner_def Let_def split: if_splits)
  have s1: "set (index a) = set (index b)"
    using arg_cong [OF conjunct1 [OF array_equal_eq [OF e(1)]], of set]
    by (simp only: set_np_sort)
  have s2: "set (index a) = set (index c)"
    using arg_cong [OF conjunct1 [OF array_equal_eq [OF e(2)]], of set]
    by (simp only: set_np_sort)
  have s3: "set (index a) = set (index d)"
    using arg_cong [OF conjunct1 [OF array_equal_eq [OF e(3)]], of set]
    by (simp only: set_np_sort)
  have s4: "None \<notin> set (index a)"
    using conjunct2 [OF array_equal_eq [OF e(1)]] unfolding set_np_sort .
  from r s1 s2 s3 s4 show ?thesis by (intro conjI)
qed

lemma feature_aligner_dense:
  assumes "np_sort (index (align item im)) = map Some [0..<n]"
    "np_sort (index (align item tx)) = map Some [0..<n]"
    "np_sort (index (align item pr)) = map Some [0..<n]"
    "np_sort (index (align item tr)) = map Some [0..<n]"
  shows "feature_aligner im tx pr tr item
           = Inr (align item im, align item tx, align item pr, align item tr)"
proof -
  have "array_equal (map Some [0..<n]) (map Some [0..<n])"
    by (rule array_equal_same) auto
  then show ?thesis by (simp add: feature_aligner_def Let_def assms)
qed

lemma apply_rows_lookup:
  "set xs \<subseteq> dom m \<Longrightarrow> apply_rows (lookup m) xs = Inr (map (\<lambda>k. the (m k)) xs)"
  by (induction xs) (auto simp: lookup_def)

lemma create_inter_total:
  "create_inter user item labels
     = Inr (zip (map (\<lambda>k. the (mapping_u user item k)) user)
              (zip (map (\<lambda>k. the (mapping_i item k)) item) labels))"
proof -
  have "set item \<subseteq> dom (mapping_i item)" "set user \<subseteq> dom (mapping_u user item)"
    by (simp_all add: mapping_i_enum mapping_u_enum enumerate_from_dom np_unique_props)
  then show ?thesis by (simp add: create_inter_def apply_rows_lookup)
qed

lemma map_snd_zip3:
  "length a = length b \<Longrightarrow> length c = length b \<Longrightarrow> map (\<lambda>r. fst (snd r)) (zip a (zip b c)) = b"
  by (rule nth_equalityI) simp_all

lemma create_inter_items:
  assumes "length user = length item" "length labels = length item"
  shows "\<exists>inter'. create_inter user item labels = Inr inter'
           \<and> (\<lambda>r. fst (snd r)) ` set inter' = {0..<card (set item)}"
proof -
  let ?I = "zip (map (\<lambda>k. the (mapping_u user item k)) user)
              (zip (map (\<lambda>k. the (mapping_i item k)) item) labels)"
  have "map (\<lambda>r. fst (snd r)) ?I = map (\<lambda>k. the (mapping_i item k)) item"
    using assms by (intro map_snd_zip3) simp_all
  then have "set (map (\<lambda>r. fst (snd r)) ?I) = (\<lambda>k. the (mapping_i item k)) ` set item"
    by simp
  also have "\<dots> = the ` (mapping_i item ` set item)" by (simp add: image_image)
  also have "\<dots> = {0..<card (set item)}" by (simp only: mapping_i_image) (simp add: image_image)
  finally have "(\<lambda>r. fst (snd r)) ` set ?I = {0..<card (set item)}" by simp
  with create_inter_total [of user item labels] show ?thesis by blast
qed

lemma label_generator_lengths:
  assumes "label_generator True df = Inr (user, item, labels)"
  shows "length user = length item" "length labels = length item"
    "set item \<subseteq> Token_ID ` set df"
proof -
  from assms obtain df' where p: "parse_prices True df = Inr df'"
    and r: "user = map Buyer df'" "item = map Token_ID df'" "labels = Price_diff df'"
    by (auto simp: label_generator_def split: sum.splits)
  from r show "length user = length item" "length labels = length item"
    by (simp_all add: length_Price_diff)
  from parse_prices_columns [OF p] r
  have "item = map Token_ID (filter (\<lambda>r. str_contains_dollar (Price r) = Some True) df)"
    by simp
  then show "set item \<subseteq> Token_ID ` set df" by auto
qed

lemma threshold_filter_tokens:
  "Token_ID ` set (threshold_filter im tx pr tr fb CUT df)
     \<subseteq> set (index im) \<inter> set (index tx) \<inter> set (index pr) \<inter> set (index tr)"
  by (subst threshold_filter_filter) auto

lemma align_keys_defined:
  "None \<notin> set (index (align item t))"
proof
  assume "None \<in> set (index (align item t))"
  then obtain k where "k \<in> set item" "mapping_i item k = None"
    unfolding index_align by auto
  moreover have "dom (mapping_i item) = set item"
    by (simp add: mapping_i_enum enumerate_from_dom np_unique_props)
  ultimately show False by (metis domIff)
qed

lemma np_sort_defined:
  assumes "None \<notin> set ks"
  shows "np_sort ks = map Some (sort (map the ks))"
proof -
  from assms have "filter (\<lambda>k. k \<noteq> None) ks = ks" by (metis (mono_tags, lifting) filter_True)
  moreover from assms have "filter (\<lambda>k. k = None) ks = []"
    by (metis (mono_tags, lifting) filter_False)
  ultimately show ?thesis unfolding np_sort_def by simp
qed

lemma array_equal_Some: "array_equal (map Some xs) (map Some ys) \<longleftrightarrow> xs = ys"
proof
  assume "array_equal (map Some xs) (map Some ys)"
  from array_equal_eq [OF this] have "map Some xs = map Some ys" by (rule conjunct1)
  then show "xs = ys" by (simp add: inj_map_eq_map)
next
  assume e: "xs = ys"
  have "None \<notin> set (map Some ys)" by (induction ys) simp_all
  then have "array_equal (map Some ys) (map Some ys)" by (rule array_equal_same)
  then show "array_equal (map Some xs) (map Some ys)" unfolding e .
qed

lemma sort_eq_iff_mset: "sort xs = sort ys \<longleftrightarrow> mset xs = mset ys"
proof
  assume "sort xs = sort ys"
  then have "mset (sort xs) = mset (sort ys)" by (rule arg_cong)
  then show "mset xs = mset ys" by simp
next
  assume "mset xs = mset ys"
  then show "sort xs = sort ys" by (intro properties_for_sort) simp_all
qed

lemma mapped_mset_eq_iff:
  assumes "set ks \<subseteq> set item" "set ks' \<subseteq> set item"
  shows "mset (map (\<lambda>k. the (mapping_i item k)) ks) = mset (map (\<lambda>k. the (mapping_i item k)) ks')
           \<longleftrightarrow> mset ks = mset ks'"
proof
  let ?f = "\<lambda>k. the (mapping_i item k)" and ?g = "\<lambda>v. np_unique item ! v"
  assume e: "mset (map ?f ks) = mset (map ?f ks')"
  have inv: "?g (?f k) = k" if "k \<in> set item" for k
  proof -
    from that obtain i where "i < length (np_unique item)" "np_unique item ! i = k"
      by (metis in_set_conv_nth np_unique_props(3))
    then show ?thesis
      using enumerate_from_nth [OF np_unique_props(2), of i item 0]
      by (simp add: mapping_i_enum)
  qed
  have unmap: "map ?g (map ?f zs) = zs" if "set zs \<subseteq> set item" for zs
    using that by (induction zs) (simp_all add: inv)
  from e have "mset (map ?g (map ?f ks)) = mset (map ?g (map ?f ks'))"
    by (simp only: mset_map)
  then show "mset ks = mset ks'" by (simp only: unmap [OF assms(1)] unmap [OF assms(2)])
next
  assume "mset ks = mset ks'"
  then show "mset (map (\<lambda>k. the (mapping_i item k)) ks)
               = mset (map (\<lambda>k. the (mapping_i item k)) ks')"
    by (simp only: mset_map)
qed

lemma aligned_arrays_equal:
  "array_equal (np_sort (index (align item t1))) (np_sort (index (align item t2)))
     \<longleftrightarrow> mset (filter (\<lambda>k. k \<in> set item) (index t1))
           = mset (filter (\<lambda>k. k \<in> set item) (index t2))"
proof -
  let ?k1 = "filter (\<lambda>k. k \<in> set item) (index t1)"
  let ?k2 = "filter (\<lambda>k. k \<in> set item) (index t2)"
  let ?f = "\<lambda>k. the (mapping_i item k)"
  have s: "np_sort (index (align item t)) = map Some (sort (map ?f (filter (\<lambda>k. k \<in> set item) (index t))))"
    for t :: "(int, 'z) table"
    by (simp only: np_sort_defined [OF align_keys_defined]) (simp add: index_align comp_def)
  have "array_equal (np_sort (index (align item t1))) (np_sort (index (align item t2)))
          \<longleftrightarrow> sort (map ?f ?k1) = sort (map ?f ?k2)"
    by (simp only: s array_equal_Some)
  also have "\<dots> \<longleftrightarrow> mset (map ?f ?k1) = mset (map ?f ?k2)" by (rule sort_eq_iff_mset)
  also have "\<dots> \<longleftrightarrow> mset ?k1 = mset ?k2" by (rule mapped_mset_eq_iff) auto
  finally show ?thesis .
qed

lemma feature_aligner_exact:
  "feature_aligner im tx pr tr item =
     (if mset (filter (\<lambda>k. k \<in> set item) (index im)) = mset (filter (\<lambda>k. k \<in> set item) (index tx))
         \<and> mset (filter (\<lambda>k. k \<in> set item) (index im)) = mset (filter (\<lambda>k. k \<in> set item) (index pr))
         \<and> mset (filter (\<lambda>k. k \<in> set item) (index im)) = mset (filter (\<lambda>k. k \<in> set item) (index tr))
      then Inr (align item im, align item tx, align item pr, align item tr)
      else Inl AssertionError)"
  unfolding feature_aligner_def Let_def aligned_arrays_equal by simp

lemma kept_keys_set:
  "mset (filter (\<lambda>k. k \<in> set item) (index t1)) = mset (filter (\<lambda>k. k \<in> set item) (index t2))
     \<Longrightarrow> set (index (align item t1)) = set (index (align item t2))"
proof -
  assume "mset (filter (\<lambda>k. k \<in> set item) (index t1)) = mset (filter (\<lambda>k. k \<in> set item) (index t2))"
  then have "set (filter (\<lambda>k. k \<in> set item) (index t1)) = set (filter (\<lambda>k. k \<in> set item) (index t2))"
    by (rule mset_eq_setD)
  then show ?thesis by (simp only: index_align set_map)
qed

lemma feature_aligner_mismatch:
  assumes "set (index (align item im)) \<noteq> set (index (align item tx))
         \<or> set (index (align item im)) \<noteq> set (index (align item pr))
         \<or> set (index (align item im)) \<noteq> set (index (align item tr))"
  shows "feature_aligner im tx pr tr item = Inl AssertionError"
proof -
  from assms kept_keys_set [of item im tx] kept_keys_set [of item im pr] kept_keys_set [of item im tr]
  have "\<not> (mset (filter (\<lambda>k. k \<in> set item) (index im)) = mset (filter (\<lambda>k. k \<in> set item) (index tx))
         \<and> mset (filter (\<lambda>k. k \<in> set item) (index im)) = mset (filter (\<lambda>k. k \<in> set item) (index pr))
         \<and> mset (filter (\<lambda>k. k \<in> set item) (index im)) = mset (filter (\<lambda>k. k \<in> set item) (index tr)))"
    by metis
  then show ?thesis by (simp only: feature_aligner_exact if_False)
qed

text \<open>
  C9, as the claim states it, fails. Buyer A buys token 5 five times, all five rows
  pass the filters with \<open>CUT = 5\<close> and the label cell returns; the image table lists
  token 5 twice, the other tables once. The key sets agree, but the image key array is
  \<open>[0, 0]\<close> against \<open>[0]\<close> and the first assertion fires.
\<close>

theorem feature_aligner_repeated_key_counterexample:
  "label_generator True
     (threshold_filter [(5, ()), (5, ())] [(5, ())] [(5, ())] [(5, ())] [''A''] 5
        [\<lparr>Buyer = ''A'', Token_ID = 5, Price = Some ''0.005 ETH ($10.00)''\<rparr>,
         \<lparr>Buyer = ''A'', Token_ID = 5, Price = Some ''0.005 ETH ($11.00)''\<rparr>,
         \<lparr>Buyer = ''A'', Token_ID = 5, Price = Some ''0.005 ETH ($12.00)''\<rparr>,
         \<lparr>Buyer = ''A'', Token_ID = 5, Price = Some ''0.005 ETH ($13.00)''\<rparr>,
         \<lparr>Buyer = ''A'', Token_ID = 5, Price = Some ''0.005 ETH ($14.00)''\<rparr>])
     = Inr ([''A'', ''A'', ''A'', ''A'', ''A''], [5, 5, 5, 5, 5], [1, 1, 1, 1, 0])
   \<and> set (index (align [5, 5, 5, 5, 5] [(5, ()), (5, ())]))
       = set (index (align [5, 5, 5, 5, 5] [(5, ())]))
   \<and> feature_aligner [(5, ()), (5, ())] [(5, ())] [(5, ())] [(5, ())] [5, 5, 5, 5, 5]
       = Inl AssertionError"
  by code_simp

text \<open>
  C9, amended. Let \<open>item\<close> be the item column the label cell returns on the rows the
  threshold filter kept. After the restriction to \<open>np.unique(item)\<close> and the reindexing
  through \<open>mapping_i\<close>, the key set of each of the four tables is the set of the mapped
  item ids \<open>0, ..., num_items - 1\<close>, which is the set of item ids of \<open>inter\<close>. The
  assertions compare the sorted key arrays, with multiplicity: for any tables and items
  the cell returns the aligned tables exactly when every kept token id is listed
  equally often in the four indexes, and raises AssertionError otherwise. So on a
  pipeline state the assertions pass when no table lists a token id twice, and they
  can fire only through an id listed a different number of times in two tables. For
  any tables and items, aligned key sets that differ stop the run with AssertionError,
  and no aligned key is NaN.
\<close>

theorem feature_aligner_keys_agree:
  "(label_generator True
      (threshold_filter image_t text_t price_t transaction_t feature_buyers CUT df)
      = Inr (user, item, labels) \<longrightarrow>
        set (index (align item image_t)) = Some ` {0..<card (set item)}
        \<and> set (index (align item text_t)) = Some ` {0..<card (set item)}
        \<and> set (index (align item price_t)) = Some ` {0..<card (set item)}
        \<and> set (index (align item transaction_t)) = Some ` {0..<card (set item)}
        \<and> (\<exists>inter'. create_inter user item labels = Inr inter'
               \<and> (\<lambda>r. fst (snd r)) ` set inter' = {0..<card (set item)})
        \<and> (distinct (index image_t) \<and> distinct (index text_t) \<and> distinct (index price_t)
             \<and> distinct (index transaction_t) \<longrightarrow>
               np_sort (index (align item image_t)) = map Some [0..<card (set item)]
               \<and> np_sort (index (align item text_t)) = map Some [0..<card (set item)]
               \<and> np_sort (index (align item price_t)) = map Some [0..<card (set item)]
               \<and> np_sort (index (align item transaction_t)) = map Some [0..<card (set item)]
               \<and> feature_aligner image_t text_t price_t transaction_t item
                   = Inr (align item image_t, align item text_t, align item price_t,
                          align item transaction_t)))
   \<and> feature_aligner im tx pr tr items =
       (if mset (filter (\<lambda>k. k \<in> set items) (index im))
             = mset (filter (\<lambda>k. k \<in> set items) (index tx))
           \<and> mset (filter (\<lambda>k. k \<in> set items) (index im))
             = mset (filter (\<lambda>k. k \<in> set items) (index pr))
           \<and> mset (filter (\<lambda>k. k \<in> set items) (index im))
             = mset (filter (\<lambda>k. k \<in> set items) (index tr))
        then Inr (align items im, align items tx, align items pr, align items tr)
        else Inl AssertionError)
   \<and> (set (index (align items im)) \<noteq> set (index (align items tx))
        \<or> set (index (align items im)) \<noteq> set (index (align items pr))
        \<or> set (index (align items im)) \<noteq> set (index (align items tr))
       \<longrightarrow> feature_aligner im tx pr tr items = Inl AssertionError)
   \<and> None \<notin> set (index (align items im))"
proof (intro conjI impI)
  assume run: "label_generator True
      (threshold_filter image_t text_t price_t transaction_t feature_buyers CUT df)
      = Inr (user, item, labels)"
  note L = label_generator_lengths [OF run]
  have sub: "set item \<subseteq> set (index image_t)" "set item \<subseteq> set (index text_t)"
    "set item \<subseteq> set (index price_t)" "set item \<subseteq> set (index transaction_t)"
    using L(3) threshold_filter_tokens [of image_t text_t price_t transaction_t feature_buyers CUT df]
    by blast+
  show "set (index (align item image_t)) = Some ` {0..<card (set item)}"
    "set (index (align item text_t)) = Some ` {0..<card (set item)}"
    "set (index (align item price_t)) = Some ` {0..<card (set item)}"
    "set (index (align item transaction_t)) = Some ` {0..<card (set item)}"
    using sub by (simp_all only: set_index_align)
  show "\<exists>inter'. create_inter user item labels = Inr inter'
               \<and> (\<lambda>r. fst (snd r)) ` set inter' = {0..<card (set item)}"
    using L(1,2) by (rule create_inter_items)
  assume d: "distinct (index image_t) \<and> distinct (index text_t) \<and> distinct (index price_t)
             \<and> distinct (index transaction_t)"
  show n: "np_sort (index (align item image_t)) = map Some [0..<card (set item)]"
    "np_sort (index (align item text_t)) = map Some [0..<card (set item)]"
    "np_sort (index (align item price_t)) = map Some [0..<card (set item)]"
    "np_sort (index (align item transaction_t)) = map Some [0..<card (set item)]"
    using d sub by (simp_all add: np_sort_dense mset_index_align)
  from feature_aligner_dense [OF n]
  show "feature_aligner image_t text_t price_t transaction_t item
          = Inr (align item image_t, align item text_t, align item price_t,
                 align item transaction_t)" .
next
  show "feature_aligner im tx pr tr items =
       (if mset (filter (\<lambda>k. k \<in> set items) (index im))
             = mset (filter (\<lambda>k. k \<in> set items) (index tx))
           \<and> mset (filter (\<lambda>k. k \<in> set items) (index im))
             = mset (filter (\<lambda>k. k \<in> set items) (index pr))
           \<and> mset (filter (\<lambda>k. k \<in> set items) (index im))
             = mset (filter (\<lambda>k. k \<in> set items) (index tr))
        then Inr (align items im, align items tx, align items pr, align items tr)
        else Inl AssertionError)"
    by (rule feature_aligner_exact)
next
  assume "set (index (align items im)) \<noteq> set (index (align items tx))
        \<or> set (index (align items im)) \<noteq> set (index (align items pr))
        \<or> set (index (align items im)) \<noteq> set (index (align items tr))"
  then show "feature_aligner im tx pr tr items = Inl AssertionError"
    by (rule feature_aligner_mismatch)
next
  show "None \<notin> set (index (align items im))" by (rule align_keys_defined)
qed

lemma aligner_run_filter:
  "label_generator True (threshold_filter [(5, ()), (6, ()), (9, ())] [(6, ()), (5, ())]
      [(5, ()), (6, ()), (7, ())] [(6, ()), (5, ())] [''A'', ''B''] 2
      [\<lparr>Buyer = ''A'', Token_ID = 6, Price = Some ''0.005 ETH ($10.00)''\<rparr>,
       \<lparr>Buyer = ''B'', Token_ID = 9, Price = Some ''0.004 ETH ($8.00)''\<rparr>,
       \<lparr>Buyer = ''A'', Token_ID = 5, Price = Some ''0.006 ETH ($12.00)''\<rparr>,
       \<lparr>Buyer = ''A'', Token_ID = 6, Price = Some ''0.007 ETH ($14.00)''\<rparr>])
   = Inr ([''A'', ''A'', ''A''], [6, 5, 6], [1, 0, 0])"
  by code_simp

theorem feature_aligner_keys_agree_witness:
  "distinct (index [(5 :: int, ()), (6, ()), (9, ())]) \<and> distinct (index [(6 :: int, ()), (5, ())])
   \<and> distinct (index [(5 :: int, ()), (6, ()), (7, ())])
   \<and> feature_aligner [(5, ()), (6, ()), (9, ())] [(6, ()), (5, ())] [(5, ()), (6, ()), (7, ())]
        [(6, ()), (5, ())] [6, 5, 6]
      = Inr ([(Some 0, ()), (Some 1, ())], [(Some 1, ()), (Some 0, ())],
             [(Some 0, ()), (Some 1, ())], [(Some 1, ()), (Some 0, ())])
   \<and> set (index (align [5, 6] [(5 :: int, ()), (6, ())])) \<noteq> set (index (align [5, 6] [(5 :: int, ())]))
   \<and> feature_aligner [(5, ()), (6, ())] [(5, ())] [(5, ()), (6, ())] [(5, ()), (6, ())] [5, 6]
      = Inl AssertionError"
proof -
  let ?im = "[(5 :: int, ()), (6, ()), (9, ())]" and ?tx = "[(6 :: int, ()), (5, ())]"
  let ?pr = "[(5 :: int, ()), (6, ()), (7, ())]"
  let ?a = "[(5 :: int, ()), (6, ())]" and ?b = "[(5 :: int, ())]"
  have d: "distinct (index ?im)" "distinct (index ?tx)" "distinct (index ?pr)"
    by (simp_all add: index_def)
  have al: "align [6, 5, 6] ?im = [(Some 0, ()), (Some 1, ())]"
    "align [6, 5, 6] ?tx = [(Some 1, ()), (Some 0, ())]"
    "align [6, 5, 6] ?pr = [(Some 0, ()), (Some 1, ())]"
    by code_simp+
  have mis: "set (index (align [5, 6] ?a)) \<noteq> set (index (align [5, 6] ?b))"
    by code_simp
  note T = feature_aligner_keys_agree [where image_t = ?im and text_t = ?tx and price_t = ?pr
      and transaction_t = ?tx and feature_buyers = "[''A'', ''B'']" and CUT = 2
      and user = "[''A'', ''A'', ''A'']" and item = "[6, 5, 6]" and labels = "[1, 0, 0]"
      and im = ?a and tx = ?b and pr = ?a and tr = ?a and items = "[5, 6]"]
  from T [THEN conjunct1, THEN mp, OF aligner_run_filter] d
  have ok: "feature_aligner ?im ?tx ?pr ?tx [6, 5, 6]
          = Inr (align [6, 5, 6] ?im, align [6, 5, 6] ?tx, align [6, 5, 6] ?pr, align [6, 5, 6] ?tx)"
    by blast
  from T [THEN conjunct2, THEN conjunct2, THEN conjunct1] mis
  have err: "feature_aligner ?a ?b ?a ?a [5, 6] = Inl AssertionError"
    by blast
  from d ok mis err show ?thesis by (simp only: al simp_thms)
qed

end
